theory Spec2Isabelle
  imports Main "HOL-Library.Word" "HOL-Library.Multiset" "HOL-Library.List_Lexorder"
begin

section \<open>The node hierarchy of the adaptive radix tree index\<close>

text \<open>
  Shallow embedding of \<^verbatim>\<open>src/lib/storage/index/adaptive_radix_tree/adaptive_radix_tree_nodes.cpp\<close>:
  the four inner node shapes, the leaf, their constructors and the four virtual methods
  \<^verbatim>\<open>lower_bound\<close>, \<^verbatim>\<open>upper_bound\<close>, \<^verbatim>\<open>begin\<close>, \<^verbatim>\<open>end\<close>.
\<close>

subsection \<open>Values, errors and results\<close>

type_synonym u8 = "8 word"
type_synonym u16 = "16 word"

text \<open>
  A \<^verbatim>\<open>BaseIndex::Iterator\<close> points into the vector of chunk offsets behind the index;
  it is modelled by its position. A \<^verbatim>\<open>BinaryComparable\<close> is the byte string of a key.
\<close>

type_synonym Iterator = nat
type_synonym BinaryComparable = "u8 list"

text \<open>
  What a call can do besides returning: throw \<^verbatim>\<open>std::logic_error\<close>, call a method through a
  null \<^verbatim>\<open>shared_ptr\<close>, or index a \<^verbatim>\<open>std::array\<close> or the key outside its bounds (the last two
  are undefined behaviour in C++; the model stops there and says which one happened).
  A call that never returns has the result \<open>None\<close>.
\<close>

datatype error = logic_error | null_dereference | out_of_bounds

type_synonym 'a result = "(error + 'a) option"

abbreviation returns :: "'a \<Rightarrow> 'a result" where
  "returns x \<equiv> Some (Inr x)"

abbreviation fails :: "error \<Rightarrow> 'a result" where
  "fails err \<equiv> Some (Inl err)"

abbreviation never_returns :: "'a result" where
  "never_returns \<equiv> None"

definition INVALID_INDEX :: u8 where
  "INVALID_INDEX = 255"

subsection \<open>Nodes\<close>

text \<open>
  A \<^verbatim>\<open>std::array<T, N>\<close> is a list (the constructors below make it of length \<open>N\<close>), a
  \<^verbatim>\<open>std::shared_ptr<Node>\<close> is a \<open>Node option\<close> with \<open>None\<close> for \<^verbatim>\<open>nullptr\<close>.
  \<open>Node4\<close> and \<open>Node16\<close> hold \<^verbatim>\<open>_partial_keys\<close> and \<^verbatim>\<open>_children\<close>, \<open>Node48\<close> holds
  \<^verbatim>\<open>_index_to_child\<close> and \<^verbatim>\<open>_children\<close>, \<open>Node256\<close> holds \<^verbatim>\<open>_children\<close>, a \<open>Leaf\<close> holds
  \<^verbatim>\<open>_begin\<close> and \<^verbatim>\<open>_end\<close>.
\<close>

datatype Node =
    Leaf Iterator Iterator
  | Node4 "u8 list" "Node option list"
  | Node16 "u8 list" "Node option list"
  | Node48 "u8 list" "Node option list"
  | Node256 "Node option list"

text \<open>Reading \<^verbatim>\<open>a[i]\<close>: neither \<^verbatim>\<open>std::array\<close> nor the key checks the index.\<close>

definition array_at :: "'a list \<Rightarrow> nat \<Rightarrow> error + 'a" where
  "array_at a i = (if i < length a then Inr (a ! i) else Inl out_of_bounds)"

text \<open>The same with a signed index (\<^verbatim>\<open>difference_type\<close>), which may be negative.\<close>

definition array_at_signed :: "'a list \<Rightarrow> int \<Rightarrow> error + 'a" where
  "array_at_signed a i = (if i < 0 then Inl out_of_bounds else array_at a (nat i))"

text \<open>\<^verbatim>\<open>p->method()\<close> on a pointer \<open>p\<close> that was read from an array.\<close>

fun call :: "error + Node option \<Rightarrow> (Node \<Rightarrow> 'a result) \<Rightarrow> 'a result" where
  "call (Inl err) method = fails err"
| "call (Inr None) method = fails null_dereference"
| "call (Inr (Some child)) method = method child"

lemma call_cong [fundef_cong]:
  "p = q \<Longrightarrow> (\<And>child. q = Inr (Some child) \<Longrightarrow> f child = g child) \<Longrightarrow> call p f = call q g"
proof (cases q)
  case (Inl err)
  then show "p = q \<Longrightarrow> call p f = call q g" by simp
next
  case (Inr ptr)
  then show "p = q \<Longrightarrow> (\<And>child. q = Inr (Some child) \<Longrightarrow> f child = g child) \<Longrightarrow> call p f = call q g"
    by (cases ptr) auto
qed

lemma array_at_size:
  "array_at cs i = Inr (Some c) \<Longrightarrow> size c < Suc (size_list (size_option size) cs)"
proof -
  assume "array_at cs i = Inr (Some c)"
  then have "Some c \<in> set cs"
    by (auto simp: array_at_def split: if_splits dest: nth_mem)
  then have "size_option size (Some c) \<le> size_list (size_option size) cs"
    by (rule size_list_estimation') simp
  then show ?thesis by simp
qed

subsection \<open>Constructors\<close>

text \<open>
  \<^verbatim>\<open>Node4::Node4\<close> and \<^verbatim>\<open>Node16::Node16\<close> sort the pairs by partial key, fill \<^verbatim>\<open>_partial_keys\<close>
  with \<^verbatim>\<open>INVALID_INDEX\<close> and copy pair \<open>i\<close> into slot \<open>i\<close>. The loop counter is a \<^verbatim>\<open>uint8_t\<close>;
  a write past the array stops the model before the counter could wrap.
\<close>

fun fill_sorted ::
  "(u8 \<times> Node) list \<Rightarrow> nat \<Rightarrow> u8 list \<Rightarrow> Node option list \<Rightarrow> error + u8 list \<times> Node option list" where
  "fill_sorted [] i ks cs = Inr (ks, cs)"
| "fill_sorted ((k, c) # rest) i ks cs =
     (if i < length ks \<and> i < length cs
      then fill_sorted rest (Suc i) (ks[i := k]) (cs[i := Some c])
      else Inl out_of_bounds)"

definition Node4_ctor :: "(u8 \<times> Node) list \<Rightarrow> Node result" where
  "Node4_ctor children =
     (case fill_sorted (sort_key fst children) 0 (replicate 4 INVALID_INDEX) (replicate 4 None) of
        Inl err \<Rightarrow> fails err
      | Inr (ks, cs) \<Rightarrow> returns (Node4 ks cs))"

definition Node16_ctor :: "(u8 \<times> Node) list \<Rightarrow> Node result" where
  "Node16_ctor children =
     (case fill_sorted (sort_key fst children) 0 (replicate 16 INVALID_INDEX) (replicate 16 None) of
        Inl err \<Rightarrow> fails err
      | Inr (ks, cs) \<Rightarrow> returns (Node16 ks cs))"

text \<open>
  \<^verbatim>\<open>Node48::Node48\<close> does not sort: pair \<open>i\<close> goes to \<^verbatim>\<open>_children[i]\<close> and
  \<^verbatim>\<open>_index_to_child[children[i].first]\<close> becomes \<open>i\<close>.
\<close>

fun fill_indexed ::
  "(u8 \<times> Node) list \<Rightarrow> nat \<Rightarrow> u8 list \<Rightarrow> Node option list \<Rightarrow> error + u8 list \<times> Node option list" where
  "fill_indexed [] i idx cs = Inr (idx, cs)"
| "fill_indexed ((k, c) # rest) i idx cs =
     (if unat k < length idx \<and> i < length cs
      then fill_indexed rest (Suc i) (idx[unat k := of_nat i]) (cs[i := Some c])
      else Inl out_of_bounds)"

definition Node48_ctor :: "(u8 \<times> Node) list \<Rightarrow> Node result" where
  "Node48_ctor children =
     (case fill_indexed children 0 (replicate 256 INVALID_INDEX) (replicate 48 None) of
        Inl err \<Rightarrow> fails err
      | Inr (idx, cs) \<Rightarrow> returns (Node48 idx cs))"

text \<open>
  \<^verbatim>\<open>Node256::Node256\<close> stores each child at its partial key. Its counter is a \<^verbatim>\<open>uint16_t\<close>
  compared with \<^verbatim>\<open>children.size()\<close>, so the loop is kept as it is written.
\<close>

partial_function (option) Node256_ctor_loop ::
  "(u8 \<times> Node) list \<Rightarrow> u16 \<Rightarrow> Node option list \<Rightarrow> Node option list option" where
  "Node256_ctor_loop children i cs =
     (if unat i < length children
      then Node256_ctor_loop children (i + 1)
             (cs[unat (fst (children ! unat i)) := Some (snd (children ! unat i))])
      else Some cs)"

declare Node256_ctor_loop.simps [code]

definition Node256_ctor :: "(u8 \<times> Node) list \<Rightarrow> Node result" where
  "Node256_ctor children =
     (case Node256_ctor_loop children 0 (replicate 256 None) of
        None \<Rightarrow> never_returns
      | Some cs \<Rightarrow> returns (Node256 cs))"

subsection \<open>\<^verbatim>\<open>begin()\<close>\<close>

text \<open>
  \<^verbatim>\<open>Node48::begin\<close> and \<^verbatim>\<open>Node256::begin\<close> count a \<^verbatim>\<open>uint8_t\<close> upwards while it is below the
  array size 256. The scans return the slot at which the loop body returns, \<open>None\<close> inside
  when the loop is left at its end.
\<close>

partial_function (option) Node48_begin_scan :: "u8 list \<Rightarrow> u8 \<Rightarrow> (error + u8 option) option" where
  "Node48_begin_scan idx i =
     (if unat i < 256 then
        (case array_at idx (unat i) of
           Inl err \<Rightarrow> fails err
         | Inr slot \<Rightarrow>
             if slot \<noteq> INVALID_INDEX then returns (Some i) else Node48_begin_scan idx (i + 1))
      else returns None)"

declare Node48_begin_scan.simps [code]

partial_function (option) Node256_begin_scan ::
  "Node option list \<Rightarrow> u8 \<Rightarrow> (error + u8 option) option" where
  "Node256_begin_scan cs i =
     (if unat i < 256 then
        (case array_at cs (unat i) of
           Inl err \<Rightarrow> fails err
         | Inr child \<Rightarrow>
             if child \<noteq> None then returns (Some i) else Node256_begin_scan cs (i + 1))
      else returns None)"

declare Node256_begin_scan.simps [code]

function Node_begin :: "Node \<Rightarrow> Iterator result" where
  "Node_begin (Leaf b e) = returns b"
| "Node_begin (Node4 ks cs) = call (array_at cs 0) Node_begin"
| "Node_begin (Node16 ks cs) = call (array_at cs 0) Node_begin"
| "Node_begin (Node48 idx cs) =
     (case Node48_begin_scan idx 0 of
        None \<Rightarrow> never_returns
      | Some (Inl err) \<Rightarrow> fails err
      | Some (Inr None) \<Rightarrow> fails logic_error
      | Some (Inr (Some i)) \<Rightarrow>
          (case array_at idx (unat i) of
             Inl err \<Rightarrow> fails err
           | Inr slot \<Rightarrow> call (array_at cs (unat slot)) Node_begin))"
| "Node_begin (Node256 cs) =
     (case Node256_begin_scan cs 0 of
        None \<Rightarrow> never_returns
      | Some (Inl err) \<Rightarrow> fails err
      | Some (Inr None) \<Rightarrow> fails logic_error
      | Some (Inr (Some i)) \<Rightarrow> call (array_at cs (unat i)) Node_begin)"
  by pat_completeness auto

termination
  by (relation "measure size") (auto dest: array_at_size)

subsection \<open>\<^verbatim>\<open>end()\<close>\<close>

text \<open>
  \<^verbatim>\<open>std::lower_bound\<close> over an array, as the binary search of the standard library: \<open>first\<close> and
  \<open>len\<close> delimit the part still searched, and \<^verbatim>\<open>*middle\<close> is always inside it.
\<close>

function std_lower_bound_loop :: "u8 list \<Rightarrow> nat \<Rightarrow> nat \<Rightarrow> u8 \<Rightarrow> nat" where
  "std_lower_bound_loop a first len val =
     (if 0 < len then
        (if a ! (first + len div 2) < val
         then std_lower_bound_loop a (first + len div 2 + 1) (len - len div 2 - 1) val
         else std_lower_bound_loop a first (len div 2) val)
      else first)"
  by pat_completeness auto

termination
  by (relation "measure (\<lambda>(a, first, len, val). len)") auto

declare std_lower_bound_loop.simps [simp del]

definition std_lower_bound :: "u8 list \<Rightarrow> u8 \<Rightarrow> nat" where
  "std_lower_bound a val = std_lower_bound_loop a 0 (length a) val"

text \<open>
  \<^verbatim>\<open>Node4::end\<close> counts \<open>i\<close> from 4 down to 1 and looks at \<^verbatim>\<open>_children[i - 1]\<close>; the scan
  returns \<open>i - 1\<close> where the loop body returns.
\<close>

fun Node4_end_scan :: "Node option list \<Rightarrow> nat \<Rightarrow> error + nat option" where
  "Node4_end_scan cs 0 = Inr None"
| "Node4_end_scan cs (Suc n) =
     (case array_at cs n of
        Inl err \<Rightarrow> Inl err
      | Inr child \<Rightarrow> if child \<noteq> None then Inr (Some n) else Node4_end_scan cs n)"

text \<open>\<^verbatim>\<open>Node48::end\<close> counts \<open>i\<close> from 255 down while \<open>i > 0\<close> and looks at \<^verbatim>\<open>_index_to_child[i]\<close>.\<close>

fun Node48_end_scan :: "u8 list \<Rightarrow> nat \<Rightarrow> error + nat option" where
  "Node48_end_scan idx 0 = Inr None"
| "Node48_end_scan idx (Suc n) =
     (case array_at idx (Suc n) of
        Inl err \<Rightarrow> Inl err
      | Inr slot \<Rightarrow> if slot \<noteq> INVALID_INDEX then Inr (Some (Suc n)) else Node48_end_scan idx n)"

text \<open>
  \<^verbatim>\<open>Node256::end\<close> counts a \<^verbatim>\<open>uint8_t\<close> from 255 down while \<open>i >= 0\<close>; decrementing 0 gives 255.
\<close>

partial_function (option) Node256_end_scan ::
  "Node option list \<Rightarrow> u8 \<Rightarrow> (error + u8 option) option" where
  "Node256_end_scan cs i =
     (if 0 \<le> i then
        (case array_at cs (unat i) of
           Inl err \<Rightarrow> fails err
         | Inr child \<Rightarrow>
             if child \<noteq> None then returns (Some i) else Node256_end_scan cs (i - 1))
      else returns None)"

declare Node256_end_scan.simps [code]

lemma array_at_signed_size:
  "array_at_signed cs i = Inr (Some c) \<Longrightarrow> size c < Suc (size_list (size_option size) cs)"
  by (auto simp: array_at_signed_def split: if_splits dest: array_at_size)

function Node_end :: "Node \<Rightarrow> Iterator result" where
  "Node_end (Leaf b e) = returns e"
| "Node_end (Node4 ks cs) =
     (case Node4_end_scan cs 4 of
        Inl err \<Rightarrow> fails err
      | Inr None \<Rightarrow> fails logic_error
      | Inr (Some j) \<Rightarrow> call (array_at cs j) Node_end)"
| "Node_end (Node16 ks cs) =
     (let partial_key_pos = std_lower_bound ks INVALID_INDEX in
      case array_at cs partial_key_pos of
        Inl err \<Rightarrow> fails err
      | Inr None \<Rightarrow> call (array_at_signed cs (int partial_key_pos - 1)) Node_end
      | Inr (Some child) \<Rightarrow> Node_end child)"
| "Node_end (Node48 idx cs) =
     (case Node48_end_scan idx 255 of
        Inl err \<Rightarrow> fails err
      | Inr None \<Rightarrow> fails logic_error
      | Inr (Some i) \<Rightarrow>
          (case array_at idx i of
             Inl err \<Rightarrow> fails err
           | Inr slot \<Rightarrow> call (array_at cs (unat slot)) Node_begin))"
| "Node_end (Node256 cs) =
     (case Node256_end_scan cs 255 of
        None \<Rightarrow> never_returns
      | Some (Inl err) \<Rightarrow> fails err
      | Some (Inr None) \<Rightarrow> fails logic_error
      | Some (Inr (Some i)) \<Rightarrow> call (array_at cs (unat i)) Node_begin)"
  by pat_completeness auto

termination
  by (relation "measure size") (auto dest: array_at_size array_at_signed_size)

subsection \<open>\<^verbatim>\<open>_delegate_to_child\<close>, \<^verbatim>\<open>lower_bound\<close> and \<^verbatim>\<open>upper_bound\<close>\<close>

text \<open>
  The loop of \<^verbatim>\<open>Node4::_delegate_to_child\<close>, from \<^verbatim>\<open>partial_key_id\<close> on. The third argument of
  the delegated function is \<^verbatim>\<open>++depth\<close>.
\<close>

function Node4_delegate_loop ::
  "u8 list \<Rightarrow> Node option list \<Rightarrow> u8 \<Rightarrow> BinaryComparable \<Rightarrow> nat \<Rightarrow>
   (nat \<Rightarrow> BinaryComparable \<Rightarrow> nat \<Rightarrow> Iterator result) \<Rightarrow> nat \<Rightarrow> Iterator result" where
  "Node4_delegate_loop ks cs partial_key key depth function_to_delegate partial_key_id =
     (if partial_key_id < 4 then
        (case array_at ks partial_key_id of
           Inl err \<Rightarrow> fails err
         | Inr k \<Rightarrow>
             if k < partial_key
             then Node4_delegate_loop ks cs partial_key key depth function_to_delegate
                    (partial_key_id + 1)
             else if k = partial_key
             then function_to_delegate partial_key_id key (depth + 1)
             else (case array_at cs partial_key_id of
                     Inl err \<Rightarrow> fails err
                   | Inr None \<Rightarrow> Node_end (Node4 ks cs)
                   | Inr (Some child) \<Rightarrow> Node_begin child))
      else Node_end (Node4 ks cs))"
  by pat_completeness auto

termination
  by (relation "measure (\<lambda>(ks, cs, partial_key, key, depth, f, partial_key_id). 4 - partial_key_id)")
    auto

declare Node4_delegate_loop.simps [simp del]

definition Node4_delegate_to_child ::
  "u8 list \<Rightarrow> Node option list \<Rightarrow> BinaryComparable \<Rightarrow> nat \<Rightarrow>
   (nat \<Rightarrow> BinaryComparable \<Rightarrow> nat \<Rightarrow> Iterator result) \<Rightarrow> Iterator result" where
  "Node4_delegate_to_child ks cs key depth function_to_delegate =
     (case array_at key depth of
        Inl err \<Rightarrow> fails err
      | Inr partial_key \<Rightarrow> Node4_delegate_loop ks cs partial_key key depth function_to_delegate 0)"

text \<open>
  \<^verbatim>\<open>Node16::_delegate_to_child\<close> reads \<^verbatim>\<open>*partial_key_iterator\<close> first and compares
  \<^verbatim>\<open>partial_key_pos\<close> with 16 afterwards.
\<close>

definition Node16_delegate_to_child ::
  "u8 list \<Rightarrow> Node option list \<Rightarrow> BinaryComparable \<Rightarrow> nat \<Rightarrow>
   (nat \<Rightarrow> BinaryComparable \<Rightarrow> nat \<Rightarrow> Iterator result) \<Rightarrow> Iterator result" where
  "Node16_delegate_to_child ks cs key depth function =
     (case array_at key depth of
        Inl err \<Rightarrow> fails err
      | Inr partial_key \<Rightarrow>
          (let partial_key_pos = std_lower_bound ks partial_key in
           case array_at ks partial_key_pos of
             Inl err \<Rightarrow> fails err
           | Inr k \<Rightarrow>
               if k = partial_key then function partial_key_pos key (depth + 1)
               else if partial_key_pos \<ge> 16 then Node_end (Node16 ks cs)
               else (case array_at cs partial_key_pos of
                       Inl err \<Rightarrow> fails err
                     | Inr (Some child) \<Rightarrow> Node_begin child
                     | Inr None \<Rightarrow> Node_end (Node16 ks cs))))"

text \<open>
  The loops of \<^verbatim>\<open>Node48::_delegate_to_child\<close> and \<^verbatim>\<open>Node256::_delegate_to_child\<close> count a
  \<^verbatim>\<open>uint16_t\<close> from \<^verbatim>\<open>partial_key + 1\<close> while it is below 256.
\<close>

function Node48_delegate_loop :: "u8 list \<Rightarrow> Node option list \<Rightarrow> nat \<Rightarrow> Iterator result" where
  "Node48_delegate_loop idx cs i =
     (if i < 256 then
        (case array_at idx i of
           Inl err \<Rightarrow> fails err
         | Inr slot \<Rightarrow>
             if slot \<noteq> INVALID_INDEX then call (array_at cs (unat slot)) Node_begin
             else Node48_delegate_loop idx cs (i + 1))
      else Node_end (Node48 idx cs))"
  by pat_completeness auto

termination
  by (relation "measure (\<lambda>(idx, cs, i). 256 - i)") auto

declare Node48_delegate_loop.simps [simp del]

definition Node48_delegate_to_child ::
  "u8 list \<Rightarrow> Node option list \<Rightarrow> BinaryComparable \<Rightarrow> nat \<Rightarrow>
   (u8 \<Rightarrow> BinaryComparable \<Rightarrow> nat \<Rightarrow> Iterator result) \<Rightarrow> Iterator result" where
  "Node48_delegate_to_child idx cs key depth function =
     (case array_at key depth of
        Inl err \<Rightarrow> fails err
      | Inr partial_key \<Rightarrow>
          (case array_at idx (unat partial_key) of
             Inl err \<Rightarrow> fails err
           | Inr slot \<Rightarrow>
               if slot \<noteq> INVALID_INDEX then function partial_key key (depth + 1)
               else Node48_delegate_loop idx cs (unat partial_key + 1)))"

function Node256_delegate_loop :: "Node option list \<Rightarrow> nat \<Rightarrow> Iterator result" where
  "Node256_delegate_loop cs i =
     (if i < 256 then
        (case array_at cs i of
           Inl err \<Rightarrow> fails err
         | Inr None \<Rightarrow> Node256_delegate_loop cs (i + 1)
         | Inr (Some child) \<Rightarrow> Node_begin child)
      else Node_end (Node256 cs))"
  by pat_completeness auto

termination
  by (relation "measure (\<lambda>(cs, i). 256 - i)") auto

declare Node256_delegate_loop.simps [simp del]

definition Node256_delegate_to_child ::
  "Node option list \<Rightarrow> BinaryComparable \<Rightarrow> nat \<Rightarrow>
   (u8 \<Rightarrow> BinaryComparable \<Rightarrow> nat \<Rightarrow> Iterator result) \<Rightarrow> Iterator result" where
  "Node256_delegate_to_child cs key depth function =
     (case array_at key depth of
        Inl err \<Rightarrow> fails err
      | Inr partial_key \<Rightarrow>
          (case array_at cs (unat partial_key) of
             Inl err \<Rightarrow> fails err
           | Inr None \<Rightarrow> Node256_delegate_loop cs (unat partial_key + 1)
           | Inr (Some child) \<Rightarrow> function partial_key key (depth + 1)))"

function Node_lower_bound :: "Node \<Rightarrow> BinaryComparable \<Rightarrow> nat \<Rightarrow> Iterator result" where
  "Node_lower_bound (Leaf b e) key depth = returns b"
| "Node_lower_bound (Node4 ks cs) key depth =
     Node4_delegate_to_child ks cs key depth
       (\<lambda>i key depth. call (array_at cs i) (\<lambda>child. Node_lower_bound child key depth))"
| "Node_lower_bound (Node16 ks cs) key depth =
     Node16_delegate_to_child ks cs key depth
       (\<lambda>partial_key_pos key depth.
          call (array_at cs partial_key_pos) (\<lambda>child. Node_lower_bound child key depth))"
| "Node_lower_bound (Node48 idx cs) key depth =
     Node48_delegate_to_child idx cs key depth
       (\<lambda>partial_key key depth.
          case array_at idx (unat partial_key) of
            Inl err \<Rightarrow> fails err
          | Inr slot \<Rightarrow>
              call (array_at cs (unat slot)) (\<lambda>child. Node_lower_bound child key depth))"
| "Node_lower_bound (Node256 cs) key depth =
     Node256_delegate_to_child cs key depth
       (\<lambda>partial_key key depth.
          call (array_at cs (unat partial_key)) (\<lambda>child. Node_lower_bound child key depth))"
  by pat_completeness auto

termination
  by (relation "measure (\<lambda>(n, key, depth). size n)") (auto dest: array_at_size)

function Node_upper_bound :: "Node \<Rightarrow> BinaryComparable \<Rightarrow> nat \<Rightarrow> Iterator result" where
  "Node_upper_bound (Leaf b e) key depth = returns e"
| "Node_upper_bound (Node4 ks cs) key depth =
     Node4_delegate_to_child ks cs key depth
       (\<lambda>i key depth. call (array_at cs i) (\<lambda>child. Node_upper_bound child key depth))"
| "Node_upper_bound (Node16 ks cs) key depth =
     Node16_delegate_to_child ks cs key depth
       (\<lambda>partial_key_pos key depth.
          call (array_at cs partial_key_pos) (\<lambda>child. Node_upper_bound child key depth))"
| "Node_upper_bound (Node48 idx cs) key depth =
     Node48_delegate_to_child idx cs key depth
       (\<lambda>partial_key key depth.
          case array_at idx (unat partial_key) of
            Inl err \<Rightarrow> fails err
          | Inr slot \<Rightarrow>
              call (array_at cs (unat slot)) (\<lambda>child. Node_upper_bound child key depth))"
| "Node_upper_bound (Node256 cs) key depth =
     Node256_delegate_to_child cs key depth
       (\<lambda>partial_key key depth.
          call (array_at cs (unat partial_key)) (\<lambda>child. Node_upper_bound child key depth))"
  by pat_completeness auto

termination
  by (relation "measure (\<lambda>(n, key, depth). size n)") (auto dest: array_at_size)

subsection \<open>The bulk-load driver\<close>

text \<open>
  Modelled from the spec: the bulk-load driver (\<^verbatim>\<open>AdaptiveRadixTreeIndex::_bulk_insert\<close> of
  \<^verbatim>\<open>adaptive_radix_tree_index.cpp\<close>) is not among the sources. The spec says of it: it receives
  the distinct keys in ascending order, each with its contiguous range of positions; the root
  is directly a \<open>Leaf\<close> for a single-value index; otherwise the values are grouped by the key
  byte at the current depth, the subtree of each group is built at the next depth, bottom-up,
  and the shape of the parent is chosen by the number of children: at most 4 a \<open>Node4\<close>, at most
  16 a \<open>Node16\<close>, at most 48 a \<open>Node48\<close>, else a \<open>Node256\<close>.
\<close>

definition node_for :: "(u8 \<times> Node) list \<Rightarrow> Node result" where
  "node_for children =
     (if length children \<le> 4 then Node4_ctor children
      else if length children \<le> 16 then Node16_ctor children
      else if length children \<le> 48 then Node48_ctor children
      else Node256_ctor children)"

fun collect :: "(u8 \<times> Node result) list \<Rightarrow> (u8 \<times> Node) list result" where
  "collect [] = returns []"
| "collect ((b, r) # rest) =
     (case r of
        None \<Rightarrow> never_returns
      | Some (Inl err) \<Rightarrow> fails err
      | Some (Inr child) \<Rightarrow>
          (case collect rest of
             None \<Rightarrow> never_returns
           | Some (Inl err) \<Rightarrow> fails err
           | Some (Inr children) \<Rightarrow> returns ((b, child) # children)))"

definition partition_at ::
  "(BinaryComparable \<times> Iterator \<times> Iterator) list \<Rightarrow> nat \<Rightarrow> u8 \<Rightarrow>
   (BinaryComparable \<times> Iterator \<times> Iterator) list" where
  "partition_at entries depth b = filter (\<lambda>(key, positions). key ! depth = b) entries"

definition present_bytes ::
  "(BinaryComparable \<times> Iterator \<times> Iterator) list \<Rightarrow> nat \<Rightarrow> u8 list" where
  "present_bytes entries depth =
     filter (\<lambda>b. partition_at entries depth b \<noteq> []) (map of_nat [0..<256])"

definition longest_key :: "(BinaryComparable \<times> Iterator \<times> Iterator) list \<Rightarrow> nat" where
  "longest_key entries = fold max (map (\<lambda>(key, positions). length key) entries) 0"

lemma fold_max_ge: "(m::nat) \<le> fold max xs m"
  by (induction xs arbitrary: m) (auto intro: order_trans [OF max.cobounded2])

lemma fold_max_mem: "x \<in> set xs \<Longrightarrow> (x::nat) \<le> fold max xs m"
proof (induction xs arbitrary: m)
  case Nil
  then show ?case by simp
next
  case (Cons a xs)
  then show ?case
    by (auto intro: order_trans [OF _ fold_max_ge])
qed

lemma fold_max_le:
  "(\<And>x. x \<in> set xs \<Longrightarrow> x \<le> n) \<Longrightarrow> m \<le> n \<Longrightarrow> fold max xs m \<le> (n::nat)"
  by (induction xs arbitrary: m) auto

lemma longest_key_partition:
  "longest_key (partition_at entries depth b) \<le> longest_key entries"
  unfolding longest_key_def partition_at_def
  by (rule fold_max_le) (auto intro!: fold_max_mem)

lemma longest_key_gt:
  assumes "\<not> list_ex (\<lambda>(key, positions). length key \<le> depth) entries" and "entries \<noteq> []"
  shows "depth < longest_key entries"
proof -
  from assms(2) obtain key positions where m: "(key, positions) \<in> set entries"
    by (cases entries) auto
  with assms(1) have "depth < length key"
    by (auto simp: list_ex_iff)
  moreover from m have "length key \<le> longest_key entries"
    unfolding longest_key_def by (intro fold_max_mem) force
  ultimately show ?thesis by simp
qed

function (sequential) bulk_insert ::
  "(BinaryComparable \<times> Iterator \<times> Iterator) list \<Rightarrow> nat \<Rightarrow> Node result" where
  "bulk_insert [(key, lower, upper)] depth = returns (Leaf lower upper)"
| "bulk_insert entries depth =
     (if list_ex (\<lambda>(key, positions). length key \<le> depth) entries then fails out_of_bounds
      else
        (case collect (map (\<lambda>b. (b, bulk_insert (partition_at entries depth b) (depth + 1)))
                        (present_bytes entries depth)) of
           None \<Rightarrow> never_returns
         | Some (Inl err) \<Rightarrow> fails err
         | Some (Inr children) \<Rightarrow> node_for children))"
  by pat_completeness auto

termination
proof (relation "measure (\<lambda>(entries, depth). longest_key entries - depth)", goal_cases)
  case 1
  show ?case by simp
next
  case (2 depth b)
  then show ?case by (simp add: present_bytes_def partition_at_def)
next
  case (3 v vb vc depth b)
  let ?entries = "v # vb # vc"
  from 3 have "depth < longest_key ?entries"
    by (intro longest_key_gt) auto
  moreover have "longest_key (partition_at ?entries depth b) \<le> longest_key ?entries"
    by (rule longest_key_partition)
  ultimately show ?case by simp
qed

subsection \<open>Queries on constructed nodes\<close>

text \<open>A method called on the node a constructor (or the driver) produced, if it produced one.\<close>

definition on_built :: "Node result \<Rightarrow> (Node \<Rightarrow> 'a result) \<Rightarrow> 'a result" where
  "on_built r method =
     (case r of
        None \<Rightarrow> never_returns
      | Some (Inl err) \<Rightarrow> fails err
      | Some (Inr n) \<Rightarrow> method n)"

text \<open>The four constructors and the four methods, as values, to quantify over them.\<close>

datatype shape = Shape4 | Shape16 | Shape48 | Shape256

fun construct :: "shape \<Rightarrow> (u8 \<times> Node) list \<Rightarrow> Node result" where
  "construct Shape4 children = Node4_ctor children"
| "construct Shape16 children = Node16_ctor children"
| "construct Shape48 children = Node48_ctor children"
| "construct Shape256 children = Node256_ctor children"

datatype query = Begin | End | Lower_bound BinaryComparable nat | Upper_bound BinaryComparable nat

fun run :: "query \<Rightarrow> Node \<Rightarrow> Iterator result" where
  "run Begin n = Node_begin n"
| "run End n = Node_end n"
| "run (Lower_bound key depth) n = Node_lower_bound n key depth"
| "run (Upper_bound key depth) n = Node_upper_bound n key depth"

text \<open>
  What a \<open>Node48\<close> holds under byte \<open>j\<close>: nothing, or the child pointer that
  \<^verbatim>\<open>_children[_index_to_child[j]]\<close> reads.
\<close>

definition Node48_slot :: "u8 list \<Rightarrow> Node option list \<Rightarrow> nat \<Rightarrow> (error + Node option) option" where
  "Node48_slot idx cs j =
     (if idx ! j = INVALID_INDEX then None else Some (array_at cs (unat (idx ! j))))"

text \<open>
  Sample inputs: \<open>n\<close> leaves under the partial keys \<open>0, \<dots>, n - 1\<close>, leaf \<open>i\<close> holding the
  positions from \<open>i\<close> to \<open>i + 1\<close>; the same as one-byte keys for the driver; and 18 two-byte keys
  whose largest first byte is shared by two keys.
\<close>

definition leaves :: "nat \<Rightarrow> (u8 \<times> Node) list" where
  "leaves n = map (\<lambda>i. (of_nat i, Leaf i (Suc i))) [0..<n]"

definition one_byte_keys :: "nat \<Rightarrow> (BinaryComparable \<times> Iterator \<times> Iterator) list" where
  "one_byte_keys n = map (\<lambda>i. ([of_nat i], i, Suc i)) [0..<n]"

definition two_byte_keys :: "(BinaryComparable \<times> Iterator \<times> Iterator) list" where
  "two_byte_keys =
     map (\<lambda>i. ([of_nat i, 0], i, Suc i)) [0..<16] @ [([16, 0], 16, 17), ([16, 1], 17, 18)]"

text \<open>
  The stored entries whose keys share the first \<open>d\<close> bytes of a key \<open>q\<close>: the entries under the
  node that a descent along \<open>q\<close> reaches at depth \<open>d\<close>. And three two-byte keys, two of them with
  the same first byte, to run queries for keys that are not stored.
\<close>

definition sharing ::
  "(BinaryComparable \<times> Iterator \<times> Iterator) list \<Rightarrow> nat \<Rightarrow> BinaryComparable \<Rightarrow>
   (BinaryComparable \<times> Iterator \<times> Iterator) list" where
  "sharing entries d q = filter (\<lambda>(key, positions). take d key = take d q) entries"

definition three_keys :: "(BinaryComparable \<times> Iterator \<times> Iterator) list" where
  "three_keys = [([1, 0], 0, 2), ([1, 2], 2, 3), ([2, 0], 3, 5)]"

section \<open>Loops that do not return\<close>

text \<open>
  The three scans with a \<^verbatim>\<open>uint8_t\<close> counter return only at a slot that is in use: the counter
  wraps around at the end of the array, so the exit below the loop is never taken.
\<close>

lemma Node48_begin_scan_returns:
  assumes "Node48_begin_scan idx i = Some r"
  shows "length idx = 256 \<longrightarrow> (\<exists>j<256. idx ! j \<noteq> INVALID_INDEX)"
proof (rule Node48_begin_scan.raw_induct [OF _ assms], intro impI)
  fix scan :: "u8 list \<Rightarrow> u8 \<Rightarrow> (error + u8 option) option" and idx i r
  assume IH: "\<And>idx i r. scan idx i = Some r \<Longrightarrow>
      length idx = 256 \<longrightarrow> (\<exists>j<256. idx ! j \<noteq> INVALID_INDEX)"
    and body: "(if unat i < 256 then case array_at idx (unat i) of Inl err \<Rightarrow> fails err
           | Inr slot \<Rightarrow> if slot \<noteq> INVALID_INDEX then returns (Some i) else scan idx (i + 1)
         else returns None) = Some r"
    and len: "length idx = 256"
  have bound: "unat i < 256"
    using unsigned_less [of i, where ?'a = nat] by simp
  show "\<exists>j<256. idx ! j \<noteq> INVALID_INDEX"
  proof (cases "idx ! unat i = INVALID_INDEX")
    case True
    with body len bound have "scan idx (i + 1) = Some r"
      by (simp add: array_at_def)
    with IH len show ?thesis by blast
  next
    case False
    with bound show ?thesis by blast
  qed
qed

lemma Node256_begin_scan_returns:
  assumes "Node256_begin_scan cs i = Some r"
  shows "length cs = 256 \<longrightarrow> (\<exists>j<256. cs ! j \<noteq> None)"
proof (rule Node256_begin_scan.raw_induct [OF _ assms], intro impI)
  fix scan :: "Node option list \<Rightarrow> u8 \<Rightarrow> (error + u8 option) option" and cs i r
  assume IH: "\<And>cs i r. scan cs i = Some r \<Longrightarrow> length cs = 256 \<longrightarrow> (\<exists>j<256. cs ! j \<noteq> None)"
    and body: "(if unat i < 256 then case array_at cs (unat i) of Inl err \<Rightarrow> fails err
           | Inr child \<Rightarrow> if child \<noteq> None then returns (Some i) else scan cs (i + 1)
         else returns None) = Some r"
    and len: "length cs = 256"
  have bound: "unat i < 256"
    using unsigned_less [of i, where ?'a = nat] by simp
  show "\<exists>j<256. cs ! j \<noteq> None"
  proof (cases "cs ! unat i = None")
    case True
    with body len bound have "scan cs (i + 1) = Some r"
      by (simp add: array_at_def)
    with IH len show ?thesis by blast
  next
    case False
    with bound show ?thesis by blast
  qed
qed

lemma Node256_end_scan_returns:
  assumes "Node256_end_scan cs i = Some r"
  shows "length cs = 256 \<longrightarrow> (\<exists>j<256. cs ! j \<noteq> None)"
proof (rule Node256_end_scan.raw_induct [OF _ assms], intro impI)
  fix scan :: "Node option list \<Rightarrow> u8 \<Rightarrow> (error + u8 option) option" and cs i r
  assume IH: "\<And>cs i r. scan cs i = Some r \<Longrightarrow> length cs = 256 \<longrightarrow> (\<exists>j<256. cs ! j \<noteq> None)"
    and body: "(if 0 \<le> i then case array_at cs (unat i) of Inl err \<Rightarrow> fails err
           | Inr child \<Rightarrow> if child \<noteq> None then returns (Some i) else scan cs (i - 1)
         else returns None) = Some r"
    and len: "length cs = 256"
  have bound: "unat i < 256"
    using unsigned_less [of i, where ?'a = nat] by simp
  show "\<exists>j<256. cs ! j \<noteq> None"
  proof (cases "cs ! unat i = None")
    case True
    with body len bound have "scan cs (i - 1) = Some r"
      by (simp add: array_at_def)
    with IH len show ?thesis by blast
  next
    case False
    with bound show ?thesis by blast
  qed
qed

lemma Node48_begin_scan_empty:
  "Node48_begin_scan (replicate 256 INVALID_INDEX) i = never_returns"
proof (cases "Node48_begin_scan (replicate 256 INVALID_INDEX) i")
  case None
  then show ?thesis .
next
  case (Some r)
  from Node48_begin_scan_returns [OF this] show ?thesis by auto
qed

lemma Node256_begin_scan_empty: "Node256_begin_scan (replicate 256 None) i = never_returns"
proof (cases "Node256_begin_scan (replicate 256 None) i")
  case None
  then show ?thesis .
next
  case (Some r)
  from Node256_begin_scan_returns [OF this] show ?thesis by auto
qed

lemma Node256_end_scan_empty: "Node256_end_scan (replicate 256 None) i = never_returns"
proof (cases "Node256_end_scan (replicate 256 None) i")
  case None
  then show ?thesis .
next
  case (Some r)
  from Node256_end_scan_returns [OF this] show ?thesis by auto
qed

lemma Node48_ctor_Nil:
  "Node48_ctor [] = returns (Node48 (replicate 256 INVALID_INDEX) (replicate 48 None))"
  by (simp add: Node48_ctor_def)

lemma Node256_ctor_Nil: "Node256_ctor [] = returns (Node256 (replicate 256 None))"
  by (simp add: Node256_ctor_def Node256_ctor_loop.simps)

section \<open>Constructors and the order of their input\<close>

text \<open>Sorting by partial key and \<open>map_of\<close> do not depend on the order of pairs with distinct keys.\<close>

lemma filter_same_key:
  "distinct (map fst l) \<Longrightarrow> k \<in> set l \<Longrightarrow> filter (\<lambda>x. fst k = fst x) l = [k]"
proof (induction l)
  case Nil
  then show ?case by simp
next
  case (Cons a l)
  show ?case
  proof (cases "k = a")
    case True
    with Cons.prems have "filter (\<lambda>x. fst k = fst x) l = []"
      by (auto simp: filter_empty_conv image_iff)
    with True show ?thesis by simp
  next
    case False
    with Cons.prems have "k \<in> set l" "fst k \<noteq> fst a"
      by (auto simp: image_iff)
    with Cons show ?thesis by simp
  qed
qed

lemma distinct_keys_mset:
  "mset ys = mset xs \<Longrightarrow> distinct (map fst xs) \<Longrightarrow> distinct (map fst ys)"
proof -
  assume "mset ys = mset xs" and d: "distinct (map fst xs)"
  then have "mset (map fst ys) = mset (map fst xs)" by simp
  then show ?thesis using d by (metis mset_eq_imp_distinct_iff)
qed

lemma sort_key_fst_permutation:
  assumes "mset ys = mset xs" and "distinct (map fst xs)"
  shows "sort_key fst ys = sort_key fst xs"
proof (rule properties_for_sort_key)
  show "mset (sort_key fst xs) = mset ys"
    using assms(1) by simp
  show "sorted (map fst (sort_key fst xs))"
    by simp
  fix k assume k: "k \<in> set (sort_key fst xs)"
  have "distinct (map fst (sort_key fst xs))"
    by (rule distinct_keys_mset [OF _ assms(2)]) simp
  with k have "filter (\<lambda>x. fst k = fst x) (sort_key fst xs) = [k]"
    by (rule filter_same_key [rotated])
  moreover have "k \<in> set ys"
    using k assms(1) by (metis mset_eq_setD set_sort)
  then have "filter (\<lambda>x. fst k = fst x) ys = [k]"
    using distinct_keys_mset [OF assms] by (intro filter_same_key)
  ultimately show "filter (\<lambda>x. fst k = fst x) (sort_key fst xs) = filter (\<lambda>x. fst k = fst x) ys"
    by simp
qed

lemma map_of_permutation:
  assumes "mset ys = mset xs" and "distinct (map fst xs)"
  shows "map_of ys = map_of xs"
proof -
  have "set ys = set xs" using assms(1) by (rule mset_eq_setD)
  with assms distinct_keys_mset [OF assms] show ?thesis
    by (simp add: map_of_inject_set)
qed

lemma Node256_ctor_loop_fold:
  assumes "length children < 65536" and "unat i \<le> length children"
  shows "Node256_ctor_loop children i cs =
     Some (fold (\<lambda>(k, c) cs. cs[unat k := Some c]) (drop (unat i) children) cs)"
  using assms(2)
proof (induction "length children - unat i" arbitrary: i cs)
  case 0
  then show ?case
    by (subst Node256_ctor_loop.simps) simp
next
  case (Suc d)
  then have lt: "unat i < length children" by simp
  with assms(1) have "unat i + 1 < 65536" by simp
  then have step: "unat (i + 1) = unat i + 1"
    by (simp add: unat_word_ariths)
  with Suc lt have "Node256_ctor_loop children (i + 1) (cs[unat (fst (children ! unat i)) := Some (snd (children ! unat i))]) =
      Some (fold (\<lambda>(k, c) cs. cs[unat k := Some c]) (drop (unat (i + 1)) children)
        (cs[unat (fst (children ! unat i)) := Some (snd (children ! unat i))]))"
    by (intro Suc.hyps) simp_all
  moreover have "drop (unat i) children = children ! unat i # drop (unat (i + 1)) children"
    using lt step by (simp add: Cons_nth_drop_Suc)
  ultimately show ?case
    using lt by (subst Node256_ctor_loop.simps) (simp add: case_prod_beta)
qed

lemma fold_store_length:
  "length (fold (\<lambda>(k, c) cs. cs[unat k := Some c]) xs cs) = length cs"
  by (induction xs arbitrary: cs) (auto simp: case_prod_beta)

lemma unat_of_nat_u8: "j < 256 \<Longrightarrow> unat (of_nat j :: u8) = j"
  by (simp add: unat_of_nat)

lemma of_nat_eq_u8: "j < 256 \<Longrightarrow> (of_nat j = (k::u8)) = (j = unat k)"
  by (auto simp: unat_of_nat_u8)

lemma unat_u8_less: "unat (k::u8) < 256"
  using unsigned_less [of k, where ?'a = nat] by simp

lemma fold_store_nth:
  fixes xs :: "(u8 \<times> Node) list"
  assumes "distinct (map fst xs)" and "length cs = 256" and "j < 256"
  shows "fold (\<lambda>(k, c) cs. cs[unat k := Some c]) xs cs ! j =
     (case map_of xs (of_nat j) of Some c \<Rightarrow> Some c | None \<Rightarrow> cs ! j)"
  using assms
proof (induction xs arbitrary: cs)
  case Nil
  then show ?case by simp
next
  case (Cons x xs)
  obtain k c where x: "x = (k, c)" by (cases x)
  from Cons.prems x have notin: "map_of xs k = None"
    by (simp add: map_of_eq_None_iff)
  from Cons.prems x
  have IH: "fold (\<lambda>(k, c) cs. cs[unat k := Some c]) xs (cs[unat k := Some c]) ! j =
     (case map_of xs (of_nat j) of Some c \<Rightarrow> Some c | None \<Rightarrow> cs[unat k := Some c] ! j)"
    by (intro Cons.IH) simp_all
  show ?case
  proof (cases "j = unat k")
    case True
    with IH notin Cons.prems x show ?thesis by simp
  next
    case False
    with IH Cons.prems x show ?thesis
      by (simp add: of_nat_eq_u8 split: option.split)
  qed
qed

lemma short_if_distinct_keys:
  fixes zs :: "(u8 \<times> 'a) list"
  assumes "distinct (map fst zs)"
  shows "length zs \<le> 256"
proof -
  from assms have "length zs = card (fst ` set zs)"
    by (metis distinct_card length_map set_map)
  also have "\<dots> \<le> card (UNIV :: u8 set)"
    by (intro card_mono) auto
  also have "\<dots> = 256"
    by (simp add: card_word)
  finally show ?thesis .
qed

lemma Node256_ctor_distinct:
  assumes "distinct (map fst zs)"
  shows "Node256_ctor zs =
     returns (Node256 (fold (\<lambda>(k, c) cs. cs[unat k := Some c]) zs (replicate 256 None)))"
proof -
  from short_if_distinct_keys [OF assms] have "length zs < 65536" by simp
  from Node256_ctor_loop_fold [OF this, of 0] show ?thesis
    by (simp add: Node256_ctor_def)
qed

lemma Node256_ctor_permutation:
  assumes "mset ys = mset xs" and "distinct (map fst xs)"
  shows "Node256_ctor ys = Node256_ctor xs"
proof -
  let ?store = "\<lambda>xs. fold (\<lambda>(k, c) cs. cs[unat k := Some c]) xs (replicate 256 None)"
  have dy: "distinct (map fst ys)"
    using assms by (rule distinct_keys_mset)
  have "?store ys = ?store xs"
  proof (rule nth_equalityI)
    show "length (?store ys) = length (?store xs)"
      by (simp add: fold_store_length)
    fix j assume "j < length (?store ys)"
    then have j: "j < 256" by (simp add: fold_store_length)
    then show "?store ys ! j = ?store xs ! j"
      using assms dy by (simp add: fold_store_nth map_of_permutation [OF assms])
  qed
  then show ?thesis
    by (simp add: Node256_ctor_distinct [OF assms(2)] Node256_ctor_distinct [OF dy])
qed

text \<open>
  The methods of a \<open>Node48\<close> read its two arrays only through \<open>Node48_slot\<close>, and the
  constructor makes \<open>Node48_slot\<close> the lookup in its input.
\<close>

lemma Node48_slot_present:
  "Node48_slot idx cs j = Node48_slot idx' cs' j \<Longrightarrow>
   (idx ! j = INVALID_INDEX) = (idx' ! j = INVALID_INDEX)"
  by (auto simp: Node48_slot_def split: if_splits)

lemma Node48_slot_child:
  "Node48_slot idx cs j = Node48_slot idx' cs' j \<Longrightarrow> idx ! j \<noteq> INVALID_INDEX \<Longrightarrow>
   array_at cs (unat (idx ! j)) = array_at cs' (unat (idx' ! j))"
  by (auto simp: Node48_slot_def split: if_splits)

lemma Node48_end_scan_found:
  "Node48_end_scan idx n = Inr (Some i) \<Longrightarrow> n < length idx \<Longrightarrow>
   i \<le> n \<and> idx ! i \<noteq> INVALID_INDEX"
  by (induction n) (auto simp: array_at_def split: if_splits)

lemma Node48_end_scan_cong:
  assumes "\<And>j. j < 256 \<Longrightarrow> (idx ! j = INVALID_INDEX) = (idx' ! j = INVALID_INDEX)"
    and "length idx = 256" and "length idx' = 256"
  shows "n < 256 \<Longrightarrow> Node48_end_scan idx n = Node48_end_scan idx' n"
  using assms by (induction n) (auto simp: array_at_def)

lemma Node48_begin_scan_found:
  assumes "Node48_begin_scan idx i = Some r"
  shows "length idx = 256 \<longrightarrow> (\<forall>k. r = Inr (Some k) \<longrightarrow> idx ! unat k \<noteq> INVALID_INDEX)"
proof (rule Node48_begin_scan.raw_induct [OF _ assms], intro impI allI)
  fix scan :: "u8 list \<Rightarrow> u8 \<Rightarrow> (error + u8 option) option" and idx i r k
  assume IH: "\<And>idx i r. scan idx i = Some r \<Longrightarrow>
      length idx = 256 \<longrightarrow> (\<forall>k. r = Inr (Some k) \<longrightarrow> idx ! unat k \<noteq> INVALID_INDEX)"
    and body: "(if unat i < 256 then case array_at idx (unat i) of Inl err \<Rightarrow> fails err
           | Inr slot \<Rightarrow> if slot \<noteq> INVALID_INDEX then returns (Some i) else scan idx (i + 1)
         else returns None) = Some r"
    and len: "length idx = 256" and r: "r = Inr (Some k)"
  show "idx ! unat k \<noteq> INVALID_INDEX"
  proof (cases "idx ! unat i = INVALID_INDEX")
    case True
    with body len have "scan idx (i + 1) = Some r"
      by (simp add: array_at_def unat_u8_less)
    with IH len r show ?thesis by blast
  next
    case False
    with body len r show ?thesis
      by (simp add: array_at_def unat_u8_less)
  qed
qed

lemma Node48_begin_scan_le:
  assumes "Node48_begin_scan idx i = Some r"
  shows "\<forall>idx'. length idx = 256 \<and> length idx' = 256 \<and>
      (\<forall>j<256. (idx ! j = INVALID_INDEX) = (idx' ! j = INVALID_INDEX)) \<longrightarrow>
      Node48_begin_scan idx' i = Some r"
proof (rule Node48_begin_scan.raw_induct [OF _ assms], intro impI allI, elim conjE)
  fix scan :: "u8 list \<Rightarrow> u8 \<Rightarrow> (error + u8 option) option" and idx i r idx'
  assume IH: "\<And>idx i r. scan idx i = Some r \<Longrightarrow>
      \<forall>idx'. length idx = 256 \<and> length idx' = 256 \<and>
        (\<forall>j<256. (idx ! j = INVALID_INDEX) = (idx' ! j = INVALID_INDEX)) \<longrightarrow>
        Node48_begin_scan idx' i = Some r"
    and body: "(if unat i < 256 then case array_at idx (unat i) of Inl err \<Rightarrow> fails err
           | Inr slot \<Rightarrow> if slot \<noteq> INVALID_INDEX then returns (Some i) else scan idx (i + 1)
         else returns None) = Some r"
    and len: "length idx = 256" "length idx' = 256"
    and same: "\<forall>j<256. (idx ! j = INVALID_INDEX) = (idx' ! j = INVALID_INDEX)"
  from same have here: "(idx ! unat i = INVALID_INDEX) = (idx' ! unat i = INVALID_INDEX)"
    by (simp add: unat_u8_less)
  show "Node48_begin_scan idx' i = Some r"
  proof (cases "idx ! unat i = INVALID_INDEX")
    case True
    with body len have "scan idx (i + 1) = Some r"
      by (simp add: array_at_def unat_u8_less)
    with IH len same have "Node48_begin_scan idx' (i + 1) = Some r" by blast
    with True here len show ?thesis
      by (subst Node48_begin_scan.simps) (simp add: array_at_def unat_u8_less)
  next
    case False
    with body len have "r = Inr (Some i)"
      by (simp add: array_at_def unat_u8_less)
    with False here len show ?thesis
      by (subst Node48_begin_scan.simps) (simp add: array_at_def unat_u8_less)
  qed
qed

lemma Node48_begin_scan_cong:
  assumes "\<And>j. j < 256 \<Longrightarrow> (idx ! j = INVALID_INDEX) = (idx' ! j = INVALID_INDEX)"
    and "length idx = 256" and "length idx' = 256"
  shows "Node48_begin_scan idx i = Node48_begin_scan idx' i"
proof (cases "Node48_begin_scan idx i")
  case (Some r)
  from Node48_begin_scan_le [OF this] assms show ?thesis
    using Some by auto
next
  case None
  show ?thesis
  proof (cases "Node48_begin_scan idx' i")
    case (Some r)
    from Node48_begin_scan_le [OF this] assms have "Node48_begin_scan idx i = Some r"
      by auto
    with None show ?thesis by simp
  next
    case None': None
    with None show ?thesis by simp
  qed
qed

lemma Node_begin_Node48_cong:
  assumes slots: "\<And>j. j < 256 \<Longrightarrow> Node48_slot idx cs j = Node48_slot idx' cs' j"
    and len: "length idx = 256" "length idx' = 256"
  shows "Node_begin (Node48 idx cs) = Node_begin (Node48 idx' cs')"
proof -
  have scan: "Node48_begin_scan idx' 0 = Node48_begin_scan idx 0"
    using Node48_slot_present [OF slots] len by (intro Node48_begin_scan_cong) simp_all
  show ?thesis
  proof (cases "Node48_begin_scan idx 0")
    case None
    with scan show ?thesis by simp
  next
    case (Some r)
    show ?thesis
    proof (cases "\<exists>i. r = Inr (Some i)")
      case False
      with Some scan show ?thesis
        by (auto split: sum.splits option.splits)
    next
      case True
      then obtain i where r: "r = Inr (Some i)" ..
      from Node48_begin_scan_found [OF Some] len r
      have present: "idx ! unat i \<noteq> INVALID_INDEX" by simp
      have "array_at cs (unat (idx ! unat i)) = array_at cs' (unat (idx' ! unat i))"
        by (rule Node48_slot_child [OF slots [OF unat_u8_less] present])
      with Some r scan len show ?thesis
        by (simp add: array_at_def unat_u8_less)
    qed
  qed
qed

lemma Node_end_Node48_cong:
  assumes slots: "\<And>j. j < 256 \<Longrightarrow> Node48_slot idx cs j = Node48_slot idx' cs' j"
    and len: "length idx = 256" "length idx' = 256"
  shows "Node_end (Node48 idx cs) = Node_end (Node48 idx' cs')"
proof -
  have scan: "Node48_end_scan idx' 255 = Node48_end_scan idx 255"
    using Node48_slot_present [OF slots] len by (intro Node48_end_scan_cong) simp_all
  show ?thesis
  proof (cases "\<exists>i. Node48_end_scan idx 255 = Inr (Some i)")
    case False
    with scan show ?thesis
      by (auto split: sum.splits option.splits)
  next
    case True
    then obtain i where found: "Node48_end_scan idx 255 = Inr (Some i)" ..
    from Node48_end_scan_found [OF this] len have i: "i < 256" "idx ! i \<noteq> INVALID_INDEX"
      by simp_all
    have "array_at cs (unat (idx ! i)) = array_at cs' (unat (idx' ! i))"
      by (rule Node48_slot_child [OF slots [OF i(1)] i(2)])
    with found scan len i show ?thesis
      by (simp add: array_at_def)
  qed
qed

lemma Node48_delegate_loop_cong:
  assumes slots: "\<And>j. j < 256 \<Longrightarrow> Node48_slot idx cs j = Node48_slot idx' cs' j"
    and len: "length idx = 256" "length idx' = 256"
  shows "Node48_delegate_loop idx cs i = Node48_delegate_loop idx' cs' i"
proof (induction "256 - i" arbitrary: i)
  case 0
  then show ?case
    using Node_end_Node48_cong [OF assms]
    by (simp add: Node48_delegate_loop.simps [of _ _ i])
next
  case (Suc d)
  then have i: "i < 256" by simp
  from Suc have IH: "Node48_delegate_loop idx cs (i + 1) = Node48_delegate_loop idx' cs' (i + 1)"
    by (intro Suc.hyps) simp
  show ?case
  proof (cases "idx ! i = INVALID_INDEX")
    case True
    with Node48_slot_present [OF slots [OF i]] have "idx' ! i = INVALID_INDEX" by simp
    with True IH i len show ?thesis
      by (simp add: Node48_delegate_loop.simps [of _ _ i] array_at_def)
  next
    case False
    with Node48_slot_present [OF slots [OF i]] have "idx' ! i \<noteq> INVALID_INDEX" by simp
    with False Node48_slot_child [OF slots [OF i] False] i len show ?thesis
      by (simp add: Node48_delegate_loop.simps [of _ _ i] array_at_def)
  qed
qed

lemma Node48_delegate_to_child_cong:
  assumes slots: "\<And>j. j < 256 \<Longrightarrow> Node48_slot idx cs j = Node48_slot idx' cs' j"
    and len: "length idx = 256" "length idx' = 256"
    and f: "\<And>b key depth. idx ! unat b \<noteq> INVALID_INDEX \<Longrightarrow> f b key depth = f' b key depth"
  shows "Node48_delegate_to_child idx cs key depth f = Node48_delegate_to_child idx' cs' key depth f'"
proof (cases "array_at key depth")
  case (Inl err)
  then show ?thesis by (simp add: Node48_delegate_to_child_def)
next
  case (Inr b)
  have b: "unat b < 256" by (rule unat_u8_less)
  show ?thesis
  proof (cases "idx ! unat b = INVALID_INDEX")
    case True
    with Node48_slot_present [OF slots [OF b]] have "idx' ! unat b = INVALID_INDEX" by simp
    with True Inr len b Node48_delegate_loop_cong [OF slots len] show ?thesis
      by (simp add: Node48_delegate_to_child_def array_at_def)
  next
    case False
    with Node48_slot_present [OF slots [OF b]] have "idx' ! unat b \<noteq> INVALID_INDEX" by simp
    with False Inr len b f [OF False] show ?thesis
      by (simp add: Node48_delegate_to_child_def array_at_def)
  qed
qed

lemma Node_lower_bound_Node48_cong:
  assumes slots: "\<And>j. j < 256 \<Longrightarrow> Node48_slot idx cs j = Node48_slot idx' cs' j"
    and len: "length idx = 256" "length idx' = 256"
  shows "Node_lower_bound (Node48 idx cs) key depth = Node_lower_bound (Node48 idx' cs') key depth"
  unfolding Node_lower_bound.simps
proof (rule Node48_delegate_to_child_cong [OF slots len], assumption)
  fix b :: u8 and key depth
  assume present: "idx ! unat b \<noteq> INVALID_INDEX"
  have "array_at cs (unat (idx ! unat b)) = array_at cs' (unat (idx' ! unat b))"
    by (rule Node48_slot_child [OF slots [OF unat_u8_less] present])
  with len show "(case array_at idx (unat b) of Inl err \<Rightarrow> fails err
      | Inr slot \<Rightarrow> call (array_at cs (unat slot)) (\<lambda>child. Node_lower_bound child key depth)) =
     (case array_at idx' (unat b) of Inl err \<Rightarrow> fails err
      | Inr slot \<Rightarrow> call (array_at cs' (unat slot)) (\<lambda>child. Node_lower_bound child key depth))"
    by (simp add: array_at_def unat_u8_less)
qed

lemma Node_upper_bound_Node48_cong:
  assumes slots: "\<And>j. j < 256 \<Longrightarrow> Node48_slot idx cs j = Node48_slot idx' cs' j"
    and len: "length idx = 256" "length idx' = 256"
  shows "Node_upper_bound (Node48 idx cs) key depth = Node_upper_bound (Node48 idx' cs') key depth"
  unfolding Node_upper_bound.simps
proof (rule Node48_delegate_to_child_cong [OF slots len], assumption)
  fix b :: u8 and key depth
  assume present: "idx ! unat b \<noteq> INVALID_INDEX"
  have "array_at cs (unat (idx ! unat b)) = array_at cs' (unat (idx' ! unat b))"
    by (rule Node48_slot_child [OF slots [OF unat_u8_less] present])
  with len show "(case array_at idx (unat b) of Inl err \<Rightarrow> fails err
      | Inr slot \<Rightarrow> call (array_at cs (unat slot)) (\<lambda>child. Node_upper_bound child key depth)) =
     (case array_at idx' (unat b) of Inl err \<Rightarrow> fails err
      | Inr slot \<Rightarrow> call (array_at cs' (unat slot)) (\<lambda>child. Node_upper_bound child key depth))"
    by (simp add: array_at_def unat_u8_less)
qed

lemma run_Node48_cong:
  assumes slots: "\<And>j. j < 256 \<Longrightarrow> Node48_slot idx cs j = Node48_slot idx' cs' j"
    and len: "length idx = 256" "length idx' = 256"
  shows "run q (Node48 idx cs) = run q (Node48 idx' cs')"
proof (cases q)
  case Begin
  then show ?thesis using Node_begin_Node48_cong [OF assms] by simp
next
  case End
  then show ?thesis using Node_end_Node48_cong [OF assms] by simp
next
  case (Lower_bound key depth)
  then show ?thesis using Node_lower_bound_Node48_cong [OF assms] by simp
next
  case (Upper_bound key depth)
  then show ?thesis using Node_upper_bound_Node48_cong [OF assms] by simp
qed

lemma fill_indexed_too_long:
  "length cs < i + length rest \<Longrightarrow> i \<le> length cs \<Longrightarrow>
   fill_indexed rest i idx cs = Inl out_of_bounds"
  by (induction rest i idx cs rule: fill_indexed.induct) auto

lemma fill_indexed_slots:
  assumes "length idx = 256" and "length cs = 48" and "i + length rest \<le> 48"
    and "distinct (map fst rest)"
    and "\<And>k. k \<in> fst ` set rest \<Longrightarrow> idx ! unat k = INVALID_INDEX"
    and "\<And>j. j < 256 \<Longrightarrow> idx ! j \<noteq> INVALID_INDEX \<Longrightarrow> unat (idx ! j) < i"
  shows "\<exists>idx' cs'. fill_indexed rest i idx cs = Inr (idx', cs') \<and> length idx' = 256 \<and>
     (\<forall>j<256. Node48_slot idx' cs' j =
        (case map_of rest (of_nat j) of
           Some c \<Rightarrow> Some (Inr (Some c))
         | None \<Rightarrow> Node48_slot idx cs j))"
  using assms
proof (induction rest arbitrary: i idx cs)
  case Nil
  then show ?case by simp
next
  case (Cons x rest)
  obtain k c where x: "x = (k, c)" by (cases x)
  let ?idx = "idx[unat k := of_nat i]" and ?cs = "cs[i := Some c]"
  from Cons.prems x have i: "i < 48" and fresh: "k \<notin> fst ` set rest" by auto
  from i have slot_i: "unat (of_nat i :: u8) = i" "(of_nat i :: u8) \<noteq> INVALID_INDEX"
    by (auto simp: unat_of_nat INVALID_INDEX_def dest: of_nat_inverse)
  have "\<exists>idx' cs'. fill_indexed rest (Suc i) ?idx ?cs = Inr (idx', cs') \<and> length idx' = 256 \<and>
     (\<forall>j<256. Node48_slot idx' cs' j =
        (case map_of rest (of_nat j) of
           Some c \<Rightarrow> Some (Inr (Some c))
         | None \<Rightarrow> Node48_slot ?idx ?cs j))"
  proof (rule Cons.IH)
    show "length ?idx = 256" "length ?cs = 48" "Suc i + length rest \<le> 48"
      "distinct (map fst rest)"
      using Cons.prems by simp_all
    fix k' assume k': "k' \<in> fst ` set rest"
    then have "k' \<in> fst ` set (x # rest)" by simp
    then have old: "idx ! unat k' = INVALID_INDEX" by (rule Cons.prems(5))
    from k' fresh have "k' \<noteq> k" by auto
    then have "unat k \<noteq> unat k'" by (simp add: word_unat_eq_iff)
    then show "?idx ! unat k' = INVALID_INDEX"
      using old by (metis nth_list_update_neq)
  next
    fix j assume j: "j < 256" "?idx ! j \<noteq> INVALID_INDEX"
    show "unat (?idx ! j) < Suc i"
    proof (cases "j = unat k")
      case True
      with Cons.prems(1) j slot_i show ?thesis by simp
    next
      case False
      with Cons.prems(6) [of j] j show ?thesis by simp
    qed
  qed
  then obtain idx' cs' where res: "fill_indexed rest (Suc i) ?idx ?cs = Inr (idx', cs')"
    and len': "length idx' = 256"
    and view: "\<And>j. j < 256 \<Longrightarrow> Node48_slot idx' cs' j =
        (case map_of rest (of_nat j) of
           Some c \<Rightarrow> Some (Inr (Some c))
         | None \<Rightarrow> Node48_slot ?idx ?cs j)"
    by blast
  have "Node48_slot idx' cs' j =
        (case map_of (x # rest) (of_nat j) of
           Some c \<Rightarrow> Some (Inr (Some c))
         | None \<Rightarrow> Node48_slot idx cs j)" if j: "j < 256" for j
  proof (cases "j = unat k")
    case True
    from fresh have "map_of rest k = None"
      by (simp add: map_of_eq_None_iff)
    with view [OF j] True x Cons.prems(1,2) i slot_i show ?thesis
      by (simp add: Node48_slot_def array_at_def unat_u8_less)
  next
    case False
    then have ne: "(of_nat j :: u8) \<noteq> k"
      using j by (simp add: of_nat_eq_u8)
    have "Node48_slot ?idx ?cs j = Node48_slot idx cs j"
    proof (cases "idx ! j = INVALID_INDEX")
      case True
      with False show ?thesis by (simp add: Node48_slot_def)
    next
      case present: False
      with Cons.prems(6) [OF j] have "unat (idx ! j) \<noteq> i" by simp
      with False show ?thesis
        by (simp add: Node48_slot_def array_at_def)
    qed
    with view [OF j] ne x show ?thesis
      by (simp split: option.split)
  qed
  with res len' x Cons.prems(1,2) i show ?case
    by (simp add: unat_u8_less)
qed

lemma Node48_ctor_slots:
  assumes "distinct (map fst xs)" and "length xs \<le> 48"
  shows "\<exists>idx cs. Node48_ctor xs = returns (Node48 idx cs) \<and> length idx = 256 \<and>
     (\<forall>j<256. Node48_slot idx cs j = map_option (\<lambda>c. Inr (Some c)) (map_of xs (of_nat j)))"
proof -
  have "\<exists>idx' cs'. fill_indexed xs 0 (replicate 256 INVALID_INDEX) (replicate 48 None) = Inr (idx', cs') \<and>
     length idx' = 256 \<and>
     (\<forall>j<256. Node48_slot idx' cs' j =
        (case map_of xs (of_nat j) of
           Some c \<Rightarrow> Some (Inr (Some c))
         | None \<Rightarrow> Node48_slot (replicate 256 INVALID_INDEX) (replicate 48 None) j))"
    using assms by (intro fill_indexed_slots) (simp_all add: unat_u8_less)
  then obtain idx cs where
    "fill_indexed xs 0 (replicate 256 INVALID_INDEX) (replicate 48 None) = Inr (idx, cs)"
    "length idx = 256"
    "\<And>j. j < 256 \<Longrightarrow> Node48_slot idx cs j =
        (case map_of xs (of_nat j) of
           Some c \<Rightarrow> Some (Inr (Some c))
         | None \<Rightarrow> Node48_slot (replicate 256 INVALID_INDEX) (replicate 48 None) j)"
    by blast
  then show ?thesis
    by (auto simp: Node48_ctor_def Node48_slot_def split: option.split)
qed

lemma Node48_ctor_permutation:
  assumes "mset ys = mset xs" and "distinct (map fst xs)"
  shows "on_built (Node48_ctor ys) (run q) = on_built (Node48_ctor xs) (run q)"
proof (cases "length xs \<le> 48")
  case False
  moreover have "length ys = length xs"
    using assms(1) by (rule mset_eq_length)
  ultimately show ?thesis
    by (simp add: Node48_ctor_def fill_indexed_too_long)
next
  case True
  moreover have "length ys = length xs"
    using assms(1) by (rule mset_eq_length)
  moreover have dy: "distinct (map fst ys)"
    using assms by (rule distinct_keys_mset)
  ultimately obtain idx cs idx' cs' where
    x: "Node48_ctor xs = returns (Node48 idx cs)" "length idx = 256"
      "\<And>j. j < 256 \<Longrightarrow> Node48_slot idx cs j = map_option (\<lambda>c. Inr (Some c)) (map_of xs (of_nat j))"
    and y: "Node48_ctor ys = returns (Node48 idx' cs')" "length idx' = 256"
      "\<And>j. j < 256 \<Longrightarrow> Node48_slot idx' cs' j = map_option (\<lambda>c. Inr (Some c)) (map_of ys (of_nat j))"
    using Node48_ctor_slots [OF assms(2)] Node48_ctor_slots [OF dy] by metis
  have "run q (Node48 idx' cs') = run q (Node48 idx cs)"
    by (rule run_Node48_cong) (simp_all add: x y map_of_permutation [OF assms])
  with x y show ?thesis by (simp add: on_built_def)
qed

section \<open>Stored keys in bulk-built trees\<close>

text \<open>
  The arrays the two sorting constructors build from pairs that are already in ascending order,
  and the position at which the searches of \<open>Node4\<close> and \<open>Node16\<close> find a partial key that is
  present.
\<close>

lemma fill_sorted_closed:
  "i + length rest \<le> length ks \<Longrightarrow> length cs = length ks \<Longrightarrow>
   fill_sorted rest i ks cs =
     Inr (take i ks @ map fst rest @ drop (i + length rest) ks,
          take i cs @ map (\<lambda>p. Some (snd p)) rest @ drop (i + length rest) cs)"
proof (induction rest arbitrary: i ks cs)
  case Nil
  then show ?case by simp
next
  case (Cons x rest)
  obtain k c where x: "x = (k, c)" by (cases x)
  from Cons.prems have i: "i < length ks" "i < length cs" by simp_all
  from Cons.prems have "fill_sorted rest (Suc i) (ks[i := k]) (cs[i := Some c]) =
     Inr (take (Suc i) (ks[i := k]) @ map fst rest @ drop (Suc i + length rest) (ks[i := k]),
          take (Suc i) (cs[i := Some c]) @ map (\<lambda>p. Some (snd p)) rest @
            drop (Suc i + length rest) (cs[i := Some c]))"
    by (intro Cons.IH) simp_all
  with i x show ?case
    by (simp add: take_Suc_conv_app_nth drop_update_cancel)
qed

lemma Node4_ctor_sorted:
  assumes "sorted (map fst children)" and "length children \<le> 4"
  shows "Node4_ctor children =
     returns (Node4 (map fst children @ replicate (4 - length children) INVALID_INDEX)
                    (map (\<lambda>p. Some (snd p)) children @ replicate (4 - length children) None))"
  using assms by (simp add: Node4_ctor_def sort_key_id_if_sorted fill_sorted_closed)

lemma Node16_ctor_sorted:
  assumes "sorted (map fst children)" and "length children \<le> 16"
  shows "Node16_ctor children =
     returns (Node16 (map fst children @ replicate (16 - length children) INVALID_INDEX)
                     (map (\<lambda>p. Some (snd p)) children @ replicate (16 - length children) None))"
  using assms by (simp add: Node16_ctor_def sort_key_id_if_sorted fill_sorted_closed)

lemma Node4_delegate_loop_match:
  assumes "length ks = 4" and "p < 4" and "\<And>j. j < p \<Longrightarrow> ks ! j < b" and "ks ! p = b"
  shows "n \<le> p \<Longrightarrow> Node4_delegate_loop ks cs b key depth f n = f p key (depth + 1)"
proof (induction "p - n" arbitrary: n)
  case 0
  with assms show ?case
    by (simp add: Node4_delegate_loop.simps [of _ _ _ _ _ _ n] array_at_def)
next
  case (Suc d)
  then have "n < p" by simp
  with assms Suc show ?case
    by (simp add: Node4_delegate_loop.simps [of _ _ _ _ _ _ n] array_at_def)
qed

lemma std_lower_bound_loop_partition:
  assumes below: "\<And>j. j < p \<Longrightarrow> a ! j < v"
    and above: "\<And>j. p \<le> j \<Longrightarrow> j < length a \<Longrightarrow> v \<le> a ! j"
  shows "first + len \<le> length a \<Longrightarrow> first \<le> p \<Longrightarrow> p \<le> first + len \<Longrightarrow>
         std_lower_bound_loop a first len v = p"
proof (induction len arbitrary: first rule: less_induct)
  case (less len)
  show ?case
  proof (cases "0 < len")
    case False
    with less.prems show ?thesis
      by (subst std_lower_bound_loop.simps) simp
  next
    case True
    let ?middle = "first + len div 2"
    from True less.prems have mid: "?middle < length a" "?middle < first + len"
      by simp_all
    show ?thesis
    proof (cases "a ! ?middle < v")
      case smaller: True
      have "?middle < p"
      proof (rule ccontr)
        assume "\<not> ?middle < p"
        then have "v \<le> a ! ?middle"
          using mid by (intro above) simp_all
        with smaller show False by simp
      qed
      with True less.prems mid
      have "std_lower_bound_loop a (?middle + 1) (len - len div 2 - 1) v = p"
        by (intro less.IH) simp_all
      with True smaller show ?thesis
        by (subst std_lower_bound_loop.simps) simp
    next
      case geq: False
      have "p \<le> ?middle"
      proof (rule ccontr)
        assume "\<not> p \<le> ?middle"
        then have "a ! ?middle < v"
          by (intro below) simp
        with geq show False by simp
      qed
      with True less.prems mid
      have "std_lower_bound_loop a first (len div 2) v = p"
        by (intro less.IH) simp_all
      with True geq show ?thesis
        by (subst std_lower_bound_loop.simps) simp
    qed
  qed
qed

lemma std_lower_bound_partition:
  assumes "\<And>j. j < p \<Longrightarrow> a ! j < v" and "\<And>j. p \<le> j \<Longrightarrow> j < length a \<Longrightarrow> v \<le> a ! j"
    and "p \<le> length a"
  shows "std_lower_bound a v = p"
  unfolding std_lower_bound_def
  using assms by (intro std_lower_bound_loop_partition) simp_all

lemma u8_le_INVALID_INDEX: "(b::u8) \<le> INVALID_INDEX"
proof -
  have "unat b \<le> 255" using unat_u8_less [of b] by simp
  then show ?thesis by (simp add: INVALID_INDEX_def word_le_nat_alt)
qed

lemma padded_position:
  fixes ch :: "(u8 \<times> Node) list"
  assumes sorted: "sorted_wrt (<) (map fst ch)" and mem: "(b, c) \<in> set ch" and len: "length ch \<le> N"
  shows "\<exists>p<length ch.
     (map fst ch @ replicate (N - length ch) INVALID_INDEX) ! p = b \<and>
     (map (\<lambda>p. Some (snd p)) ch @ replicate (N - length ch) None) ! p = Some c \<and>
     (\<forall>j<p. (map fst ch @ replicate (N - length ch) INVALID_INDEX) ! j < b) \<and>
     (\<forall>j. p \<le> j \<and> j < N \<longrightarrow> b \<le> (map fst ch @ replicate (N - length ch) INVALID_INDEX) ! j)"
proof -
  from mem obtain p where p: "p < length ch" "ch ! p = (b, c)"
    by (auto simp: in_set_conv_nth)
  have before: "fst (ch ! j) < b" if "j < p" for j
    using sorted_wrt_nth_less [OF sorted, of j p] that p by simp
  have after: "b \<le> fst (ch ! j)" if "p \<le> j" "j < length ch" for j
  proof (cases "j = p")
    case True
    with p show ?thesis by simp
  next
    case False
    with that sorted_wrt_nth_less [OF sorted, of p j] p show ?thesis by simp
  qed
  have "b \<le> (map fst ch @ replicate (N - length ch) INVALID_INDEX) ! j" if "p \<le> j" "j < N" for j
    using that after [of j] by (simp add: nth_append u8_le_INVALID_INDEX)
  with p before show ?thesis
    by (intro exI [of _ p]) (auto simp: nth_append)
qed

lemma Node4_exact_match:
  assumes "sorted_wrt (<) (map fst ch)" and "(b, c) \<in> set ch" and "length ch \<le> 4"
    and key: "array_at key depth = Inr b"
  shows "on_built (Node4_ctor ch) (\<lambda>n. Node_lower_bound n key depth) = Node_lower_bound c key (depth + 1)"
    and "on_built (Node4_ctor ch) (\<lambda>n. Node_upper_bound n key depth) = Node_upper_bound c key (depth + 1)"
proof -
  let ?ks = "map fst ch @ replicate (4 - length ch) INVALID_INDEX"
  let ?cs = "map (\<lambda>p. Some (snd p)) ch @ replicate (4 - length ch) None"
  from padded_position [OF assms(1-3)] obtain p where p: "p < length ch" "?ks ! p = b"
    "?cs ! p = Some c" "\<And>j. j < p \<Longrightarrow> ?ks ! j < b"
    by blast
  have ctor: "Node4_ctor ch = returns (Node4 ?ks ?cs)"
    using assms by (intro Node4_ctor_sorted) (simp_all add: strict_sorted_imp_sorted)
  have loop: "Node4_delegate_loop ?ks ?cs b key depth f 0 = f p key (depth + 1)" for f
    using assms(3) p by (intro Node4_delegate_loop_match) simp_all
  from p assms(3) have child: "array_at ?cs p = Inr (Some c)"
    by (simp add: array_at_def)
  show "on_built (Node4_ctor ch) (\<lambda>n. Node_lower_bound n key depth) = Node_lower_bound c key (depth + 1)"
    by (simp add: ctor on_built_def Node4_delegate_to_child_def key loop child)
  show "on_built (Node4_ctor ch) (\<lambda>n. Node_upper_bound n key depth) = Node_upper_bound c key (depth + 1)"
    by (simp add: ctor on_built_def Node4_delegate_to_child_def key loop child)
qed

lemma Node16_exact_match:
  assumes "sorted_wrt (<) (map fst ch)" and "(b, c) \<in> set ch" and "length ch \<le> 16"
    and key: "array_at key depth = Inr b"
  shows "on_built (Node16_ctor ch) (\<lambda>n. Node_lower_bound n key depth) = Node_lower_bound c key (depth + 1)"
    and "on_built (Node16_ctor ch) (\<lambda>n. Node_upper_bound n key depth) = Node_upper_bound c key (depth + 1)"
proof -
  let ?ks = "map fst ch @ replicate (16 - length ch) INVALID_INDEX"
  let ?cs = "map (\<lambda>p. Some (snd p)) ch @ replicate (16 - length ch) None"
  from padded_position [OF assms(1-3)] obtain p where p: "p < length ch" "?ks ! p = b"
    "?cs ! p = Some c" "\<And>j. j < p \<Longrightarrow> ?ks ! j < b" "\<And>j. p \<le> j \<Longrightarrow> j < 16 \<Longrightarrow> b \<le> ?ks ! j"
    by blast
  have ctor: "Node16_ctor ch = returns (Node16 ?ks ?cs)"
    using assms by (intro Node16_ctor_sorted) (simp_all add: strict_sorted_imp_sorted)
  have pos: "std_lower_bound ?ks b = p"
    using assms(3) p by (intro std_lower_bound_partition) simp_all
  from p assms(3) have child: "array_at ?cs p = Inr (Some c)" and slot: "array_at ?ks p = Inr b"
    by (simp_all add: array_at_def)
  show "on_built (Node16_ctor ch) (\<lambda>n. Node_lower_bound n key depth) = Node_lower_bound c key (depth + 1)"
    by (simp add: ctor on_built_def Node16_delegate_to_child_def key pos child slot)
  show "on_built (Node16_ctor ch) (\<lambda>n. Node_upper_bound n key depth) = Node_upper_bound c key (depth + 1)"
    by (simp add: ctor on_built_def Node16_delegate_to_child_def key pos child slot)
qed

lemma Node48_exact_match:
  assumes "distinct (map fst ch)" and "(b, c) \<in> set ch" and "length ch \<le> 48"
    and key: "array_at key depth = Inr b"
  shows "on_built (Node48_ctor ch) (\<lambda>n. Node_lower_bound n key depth) = Node_lower_bound c key (depth + 1)"
    and "on_built (Node48_ctor ch) (\<lambda>n. Node_upper_bound n key depth) = Node_upper_bound c key (depth + 1)"
proof -
  from Node48_ctor_slots [OF assms(1,3)] obtain idx cs where
    ctor: "Node48_ctor ch = returns (Node48 idx cs)" and len: "length idx = 256"
    and slots: "\<And>j. j < 256 \<Longrightarrow>
      Node48_slot idx cs j = map_option (\<lambda>c. Inr (Some c)) (map_of ch (of_nat j))"
    by blast
  from assms(1,2) have "map_of ch b = Some c" by simp
  with slots [OF unat_u8_less [of b]] have "Node48_slot idx cs (unat b) = Some (Inr (Some c))"
    by simp
  then have present: "idx ! unat b \<noteq> INVALID_INDEX"
    and child: "array_at cs (unat (idx ! unat b)) = Inr (Some c)"
    by (auto simp: Node48_slot_def split: if_splits)
  from len have slot: "array_at idx (unat b) = Inr (idx ! unat b)"
    by (simp add: array_at_def unat_u8_less)
  show "on_built (Node48_ctor ch) (\<lambda>n. Node_lower_bound n key depth) = Node_lower_bound c key (depth + 1)"
    by (simp add: ctor on_built_def Node48_delegate_to_child_def key slot present child)
  show "on_built (Node48_ctor ch) (\<lambda>n. Node_upper_bound n key depth) = Node_upper_bound c key (depth + 1)"
    by (simp add: ctor on_built_def Node48_delegate_to_child_def key slot present child)
qed

lemma Node256_exact_match:
  assumes "distinct (map fst ch)" and "(b, c) \<in> set ch"
    and key: "array_at key depth = Inr b"
  shows "on_built (Node256_ctor ch) (\<lambda>n. Node_lower_bound n key depth) = Node_lower_bound c key (depth + 1)"
    and "on_built (Node256_ctor ch) (\<lambda>n. Node_upper_bound n key depth) = Node_upper_bound c key (depth + 1)"
proof -
  let ?cs = "fold (\<lambda>(k, c) cs. cs[unat k := Some c]) ch (replicate 256 None)"
  have ctor: "Node256_ctor ch = returns (Node256 ?cs)"
    by (rule Node256_ctor_distinct [OF assms(1)])
  from assms(1,2) have "map_of ch b = Some c" by simp
  with fold_store_nth [OF assms(1), of "replicate 256 None" "unat b"]
  have "?cs ! unat b = Some c"
    by (simp add: unat_u8_less)
  then have child: "array_at ?cs (unat b) = Inr (Some c)"
    by (simp add: array_at_def fold_store_length unat_u8_less)
  show "on_built (Node256_ctor ch) (\<lambda>n. Node_lower_bound n key depth) = Node_lower_bound c key (depth + 1)"
    by (simp add: ctor on_built_def Node256_delegate_to_child_def key child)
  show "on_built (Node256_ctor ch) (\<lambda>n. Node_upper_bound n key depth) = Node_upper_bound c key (depth + 1)"
    by (simp add: ctor on_built_def Node256_delegate_to_child_def key child)
qed

lemma node_for_exact_match:
  assumes "sorted_wrt (<) (map fst ch)" and "(b, c) \<in> set ch" and "array_at key depth = Inr b"
  shows "on_built (node_for ch) (\<lambda>n. Node_lower_bound n key depth) = Node_lower_bound c key (depth + 1)"
    and "on_built (node_for ch) (\<lambda>n. Node_upper_bound n key depth) = Node_upper_bound c key (depth + 1)"
proof -
  from assms(1) have d: "distinct (map fst ch)"
    by (simp add: strict_sorted_iff)
  show "on_built (node_for ch) (\<lambda>n. Node_lower_bound n key depth) = Node_lower_bound c key (depth + 1)"
    using assms d
    by (simp add: node_for_def Node4_exact_match Node16_exact_match Node48_exact_match
        Node256_exact_match)
  show "on_built (node_for ch) (\<lambda>n. Node_upper_bound n key depth) = Node_upper_bound c key (depth + 1)"
    using assms d
    by (simp add: node_for_def Node4_exact_match Node16_exact_match Node48_exact_match
        Node256_exact_match)
qed

text \<open>
  The driver: for distinct keys of one length, the two bounds of a stored key are the two ends
  of its range, whatever shapes the tree is made of.
\<close>

lemma bulk_insert_many:
  "length entries \<noteq> 1 \<Longrightarrow>
   bulk_insert entries depth =
     (if list_ex (\<lambda>(key, positions). length key \<le> depth) entries then fails out_of_bounds
      else
        (case collect (map (\<lambda>b. (b, bulk_insert (partition_at entries depth b) (depth + 1)))
                        (present_bytes entries depth)) of
           None \<Rightarrow> never_returns
         | Some (Inl err) \<Rightarrow> fails err
         | Some (Inr children) \<Rightarrow> node_for children))"
proof (cases entries)
  case Nil
  then show ?thesis by simp
next
  case (Cons v rest)
  assume "length entries \<noteq> 1"
  with Cons obtain vb vc where "rest = vb # vc" by (cases rest) auto
  with Cons show ?thesis by simp
qed

lemma collect_returns:
  assumes "\<And>b. b \<in> set bs \<Longrightarrow> \<exists>n. f b = returns n"
  shows "\<exists>children. collect (map (\<lambda>b. (b, f b)) bs) = returns children \<and>
     map fst children = bs \<and> (\<forall>(b, n) \<in> set children. f b = returns n)"
  using assms
proof (induction bs)
  case Nil
  then show ?case by simp
next
  case (Cons b bs)
  then obtain n where n: "f b = returns n" by auto
  from Cons obtain children where "collect (map (\<lambda>b. (b, f b)) bs) = returns children"
    "map fst children = bs" "\<forall>(b, n) \<in> set children. f b = returns n"
    by auto
  with n show ?case
    by (intro exI [of _ "(b, n) # children"]) simp
qed

lemma sorted_bytes: "sorted_wrt (<) (map of_nat [0..<256] :: u8 list)"
proof -
  have "sorted_wrt (\<lambda>x y. (of_nat x :: u8) < of_nat y) [0..<256]"
    by (rule sorted_wrt_mono_rel [OF _ sorted_wrt_upt])
      (simp add: word_less_nat_alt unat_of_nat_u8)
  then show ?thesis by (simp add: sorted_wrt_map)
qed

lemma sorted_present_bytes: "sorted_wrt (<) (present_bytes entries depth)"
  unfolding present_bytes_def by (rule sorted_wrt_filter [OF sorted_bytes])

lemma set_present_bytes:
  "b \<in> set (present_bytes entries depth) \<longleftrightarrow> partition_at entries depth b \<noteq> []"
proof -
  have "b = of_nat (unat b)" by simp
  then have "b \<in> of_nat ` {0..<256}"
    using unat_u8_less [of b] by (intro image_eqI [of _ _ "unat b"]) simp_all
  then show ?thesis by (simp add: present_bytes_def)
qed

lemma on_built_returns:
  "on_built r method = returns x \<Longrightarrow> \<exists>n. r = returns n \<and> method n = returns x"
  by (auto simp: on_built_def split: option.splits sum.splits)

lemma bulk_insert_bounds_at:
  fixes entries :: "(BinaryComparable \<times> Iterator \<times> Iterator) list"
  assumes "distinct (map fst entries)"
    and "\<And>k r. (k, r) \<in> set entries \<Longrightarrow> length k = L"
    and "\<And>k r. (k, r) \<in> set entries \<Longrightarrow> take depth k = take depth key"
    and "(key, lower, upper) \<in> set entries"
  shows "on_built (bulk_insert entries depth) (\<lambda>t. Node_lower_bound t key depth) = returns lower \<and>
         on_built (bulk_insert entries depth) (\<lambda>t. Node_upper_bound t key depth) = returns upper"
  using assms
proof (induction "L - depth" arbitrary: entries depth key lower upper rule: less_induct)
  case less
  show ?case
  proof (cases "length entries = 1")
    case True
    with less.prems(4) have "entries = [(key, lower, upper)]"
      by (cases entries) auto
    then show ?thesis by (simp add: on_built_def)
  next
    case False
    have "distinct entries"
      using less.prems(1) by (simp add: distinct_map)
    then have "card (set entries) = length entries"
      by (rule distinct_card)
    with False have "set entries \<noteq> {(key, lower, upper)}"
      by auto
    with less.prems(4) obtain e where e: "e \<in> set entries" "e \<noteq> (key, lower, upper)"
      by auto
    obtain key' positions' where e': "e = (key', positions')" by (cases e)
    with e less.prems(1,4) have "key' \<noteq> key"
      by (metis eq_key_imp_eq_value)
    with e e' have other: "(key', positions') \<in> set entries" "key' \<noteq> key"
      by simp_all
    have L: "length key = L" "length key' = L"
      using less.prems(2) [OF less.prems(4)] less.prems(2) [OF other(1)] by simp_all
    have depth: "depth < L"
    proof (rule ccontr)
      assume "\<not> depth < L"
      with L less.prems(3) [OF other(1)] have "key' = key" by simp
      with other show False by simp
    qed
    have no_short: "\<not> list_ex (\<lambda>(key, positions). length key \<le> depth) entries"
      using less.prems(2) depth by (auto simp: list_ex_iff)
    let ?part = "\<lambda>b. partition_at entries depth b"
    have sub: "on_built (bulk_insert (?part b) (depth + 1)) (\<lambda>t. Node_lower_bound t k (depth + 1)) = returns l \<and>
         on_built (bulk_insert (?part b) (depth + 1)) (\<lambda>t. Node_upper_bound t k (depth + 1)) = returns u"
      if "(k, l, u) \<in> set (?part b)" for b k l u
    proof (rule less.hyps)
      show "L - (depth + 1) < L - depth" using depth by simp
      show "distinct (map fst (?part b))"
        unfolding partition_at_def by (rule distinct_map_filter [OF less.prems(1)])
      show "(k, l, u) \<in> set (?part b)" by fact
      fix k' r' assume m: "(k', r') \<in> set (?part b)"
      then have k': "(k', r') \<in> set entries" "k' ! depth = b"
        by (auto simp: partition_at_def)
      show "length k' = L"
        by (rule less.prems(2) [OF k'(1)])
      from that have k: "(k, l, u) \<in> set entries" "k ! depth = b"
        by (auto simp: partition_at_def)
      have "take (Suc depth) k' = take depth k' @ [k' ! depth]"
        using less.prems(2) [OF k'(1)] depth by (simp add: take_Suc_conv_app_nth)
      moreover have "take (Suc depth) k = take depth k @ [k ! depth]"
        using less.prems(2) [OF k(1)] depth by (simp add: take_Suc_conv_app_nth)
      ultimately show "take (depth + 1) k' = take (depth + 1) k"
        using less.prems(3) [OF k(1)] less.prems(3) [OF k'(1)] k k' by simp
    qed
    have "\<exists>n. bulk_insert (?part b) (depth + 1) = returns n"
      if "b \<in> set (present_bytes entries depth)" for b
    proof -
      from that obtain k l u where "(k, l, u) \<in> set (?part b)"
        by (cases "?part b") (auto simp: set_present_bytes)
      from sub [OF this] show ?thesis
        by (blast dest: on_built_returns)
    qed
    from collect_returns [of "present_bytes entries depth"
        "\<lambda>b. bulk_insert (?part b) (depth + 1)", OF this]
    obtain children where
      collected: "collect (map (\<lambda>b. (b, bulk_insert (?part b) (depth + 1)))
          (present_bytes entries depth)) = returns children"
      and bytes: "map fst children = present_bytes entries depth"
      and built: "\<And>b n. (b, n) \<in> set children \<Longrightarrow> bulk_insert (?part b) (depth + 1) = returns n"
      by blast
    have node: "bulk_insert entries depth = node_for children"
      using False no_short collected by (simp add: bulk_insert_many)
    let ?b = "key ! depth"
    have in_part: "(key, lower, upper) \<in> set (?part ?b)"
      using less.prems(4) by (simp add: partition_at_def)
    then have "?b \<in> set (map fst children)"
      unfolding bytes set_present_bytes by auto
    then obtain c where c: "(?b, c) \<in> set children" by auto
    have key_at: "array_at key depth = Inr ?b"
      using L depth by (simp add: array_at_def)
    have sorted: "sorted_wrt (<) (map fst children)"
      unfolding bytes by (rule sorted_present_bytes)
    from sub [OF in_part] built [OF c]
    have "Node_lower_bound c key (depth + 1) = returns lower"
      "Node_upper_bound c key (depth + 1) = returns upper"
      by (simp_all add: on_built_def)
    with node_for_exact_match [OF sorted c key_at] node show ?thesis
      by simp
  qed
qed

lemma bulk_insert_bounds:
  fixes entries :: "(BinaryComparable \<times> Iterator \<times> Iterator) list"
  assumes "distinct (map fst entries)"
    and "\<And>k r. (k, r) \<in> set entries \<Longrightarrow> length k = L"
    and "(key, lower, upper) \<in> set entries"
  shows "on_built (bulk_insert entries 0) (\<lambda>root. Node_lower_bound root key 0) = returns lower \<and>
         on_built (bulk_insert entries 0) (\<lambda>root. Node_upper_bound root key 0) = returns upper"
  using assms by (intro bulk_insert_bounds_at [where L = L]) simp_all

section \<open>\<open>end()\<close> of the directly addressed shapes\<close>

text \<open>
  For every \<open>Node256\<close> and for every \<open>Node48\<close> whose last used byte is not 0, \<open>end()\<close> is
  \<open>begin()\<close> of the child under the last used byte.
\<close>

lemma Node256_end_scan_last:
  assumes "length cs = 256" and "j < 256" and "cs ! j \<noteq> None"
    and "\<And>k. j < k \<Longrightarrow> k < 256 \<Longrightarrow> cs ! k = None"
  shows "j \<le> unat i \<Longrightarrow> Node256_end_scan cs i = returns (Some (of_nat j))"
proof (induction "unat i - j" arbitrary: i)
  case 0
  then have "unat i = j" by simp
  then have "i = of_nat j" by auto
  with assms \<open>unat i = j\<close> show ?case
    by (subst Node256_end_scan.simps) (simp add: array_at_def)
next
  case (Suc d)
  then have gt: "j < unat i" by simp
  then have "i \<noteq> 0" by (auto simp: unat_eq_0)
  then have pred: "unat (i - 1) = unat i - 1"
    by (simp add: unat_minus_one)
  with Suc gt have "Node256_end_scan cs (i - 1) = returns (Some (of_nat j))"
    by (intro Suc.hyps) simp_all
  moreover have "cs ! unat i = None"
    using gt by (intro assms(4)) (simp_all add: unat_u8_less)
  ultimately show ?case
    using assms(1) by (subst Node256_end_scan.simps) (simp add: array_at_def unat_u8_less)
qed

lemma Node_end_Node256_last_child:
  assumes "length cs = 256" and "j < 256" and "cs ! j = Some c"
    and "\<And>k. j < k \<Longrightarrow> k < 256 \<Longrightarrow> cs ! k = None"
  shows "Node_end (Node256 cs) = Node_begin c"
proof -
  have "Node256_end_scan cs 255 = returns (Some (of_nat j))"
    using assms by (intro Node256_end_scan_last) simp_all
  with assms show ?thesis
    by (simp add: array_at_def unat_of_nat_u8)
qed

lemma Node48_end_scan_last:
  assumes "n < length idx" and "0 < j" and "j \<le> n" and "idx ! j \<noteq> INVALID_INDEX"
    and "\<And>k. j < k \<Longrightarrow> k \<le> n \<Longrightarrow> idx ! k = INVALID_INDEX"
  shows "Node48_end_scan idx n = Inr (Some j)"
  using assms
proof (induction n)
  case 0
  then show ?case by simp
next
  case (Suc n)
  show ?case
  proof (cases "j = Suc n")
    case True
    with Suc.prems show ?thesis by (simp add: array_at_def)
  next
    case False
    with Suc.prems have "Node48_end_scan idx n = Inr (Some j)"
      by (intro Suc.IH) simp_all
    moreover from False Suc.prems have "idx ! Suc n = INVALID_INDEX" by simp
    ultimately show ?thesis
      using Suc.prems(1) by (simp add: array_at_def)
  qed
qed

lemma Node_end_Node48_last_child:
  assumes "length idx = 256" and "0 < j" and "j < 256" and "idx ! j \<noteq> INVALID_INDEX"
    and "\<And>k. j < k \<Longrightarrow> k < 256 \<Longrightarrow> idx ! k = INVALID_INDEX"
    and "array_at cs (unat (idx ! j)) = Inr (Some c)"
  shows "Node_end (Node48 idx cs) = Node_begin c"
proof -
  have "Node48_end_scan idx 255 = Inr (Some j)"
    using assms by (intro Node48_end_scan_last) simp_all
  with assms show ?thesis
    by (simp add: array_at_def)
qed

section \<open>Queries for keys that are not stored\<close>

text \<open>
  The driver groups ascending keys by their byte at the depth, in ascending order of that byte,
  and every node's \<open>begin()\<close> is the begin of the first leaf below it. A descent along a key
  \<open>q\<close> therefore either reaches a leaf, which answers with its own range, or stops at an inner
  node without a child for the byte of \<open>q\<close>, which answers with \<open>begin()\<close> of the child for the
  next larger byte, if there is one.
\<close>

lemma lex_byte_mono:
  fixes a b :: "u8 list"
  assumes "a < b" and "take d a = take d b" and "d < length a" and "d < length b"
  shows "a ! d \<le> b ! d"
proof -
  have a: "a = take d a @ a ! d # drop (Suc d) a"
    by (rule id_take_nth_drop [OF assms(3)])
  have b: "b = take d a @ b ! d # drop (Suc d) b"
    unfolding assms(2) by (rule id_take_nth_drop [OF assms(4)])
  have "irrefl {(u, v :: u8). u < v}"
    by (simp add: irrefl_def)
  with assms(1) have "(a ! d # drop (Suc d) a, b ! d # drop (Suc d) b) \<in> lexord {(u, v). u < v}"
    unfolding list_less_def by (subst (asm) a, subst (asm) b) simp
  then show ?thesis by auto
qed

lemma group_bytes_sorted:
  fixes G :: "(BinaryComparable \<times> Iterator \<times> Iterator) list"
  assumes "sorted_wrt (<) (map fst G)"
    and "\<And>k r. (k, r) \<in> set G \<Longrightarrow> take d k = p \<and> d < length k"
  shows "sorted (map (\<lambda>(key, positions). key ! d) G)"
proof -
  have "sorted_wrt (\<lambda>x y. fst x < fst y) G"
    using assms(1) by (simp add: sorted_wrt_map)
  then have "sorted_wrt (\<lambda>x y. (case x of (key, positions) \<Rightarrow> key ! d) \<le> (case y of (key, positions) \<Rightarrow> key ! d)) G"
  proof (rule sorted_wrt_mono_rel [rotated])
    fix x y assume "x \<in> set G" "y \<in> set G" "fst x < fst y"
    then show "(case x of (key, positions) \<Rightarrow> key ! d) \<le> (case y of (key, positions) \<Rightarrow> key ! d)"
      using assms(2) [of "fst x" "snd x"] assms(2) [of "fst y" "snd y"]
      by (auto simp: case_prod_beta intro!: lex_byte_mono)
  qed
  then show ?thesis by (simp add: sorted_wrt_map)
qed

lemma sorted_hd_least:
  "sorted (map f G) \<Longrightarrow> e \<in> set G \<Longrightarrow> f (hd G) \<le> f e"
  by (cases G) auto

lemma hd_filter_hd: "G \<noteq> [] \<Longrightarrow> hd (filter (\<lambda>e. f e = f (hd G)) G) = hd G"
  by (cases G) auto

lemma sorted_first_above:
  assumes "sorted (map f G)" and "filter (\<lambda>e. b < f e) G = e1 # rest"
  shows "hd (filter (\<lambda>e. f e = f e1) G) = e1" and "b < f e1"
    and "\<And>e. e \<in> set G \<Longrightarrow> b < f e \<Longrightarrow> f e1 \<le> f e" and "e1 \<in> set G"
proof -
  from assms(2) obtain us vs where G: "G = us @ e1 # vs"
    and us: "\<forall>u\<in>set us. \<not> b < f u" and e1: "b < f e1"
    by (auto simp: filter_eq_Cons_iff)
  from us e1 have "filter (\<lambda>e. f e = f e1) us = []"
    by (auto simp: filter_empty_conv)
  with G show "hd (filter (\<lambda>e. f e = f e1) G) = e1" by simp
  show "b < f e1" by fact
  show "e1 \<in> set G" using G by simp
  fix e assume "e \<in> set G" "b < f e"
  with us G have "e \<in> set (e1 # vs)" by auto
  with assms(1) G show "f e1 \<le> f e"
    by (auto simp: sorted_append)
qed

text \<open>Scans that find the first slot in use.\<close>

lemma Node48_begin_scan_first:
  assumes "length idx = 256" and "j < 256" and "idx ! j \<noteq> INVALID_INDEX"
    and "\<And>k. k < j \<Longrightarrow> idx ! k = INVALID_INDEX"
  shows "unat i \<le> j \<Longrightarrow> Node48_begin_scan idx i = returns (Some (of_nat j))"
proof (induction "j - unat i" arbitrary: i)
  case 0
  then have "unat i = j" by simp
  then have "i = of_nat j" by auto
  with assms \<open>unat i = j\<close> show ?case
    by (subst Node48_begin_scan.simps) (simp add: array_at_def)
next
  case (Suc d)
  then have lt: "unat i < j" by simp
  with assms(2) have "unat i + 1 < 256" by simp
  then have succ: "unat (i + 1) = unat i + 1"
    by (simp add: unat_word_ariths)
  with Suc lt have "Node48_begin_scan idx (i + 1) = returns (Some (of_nat j))"
    by (intro Suc.hyps) simp_all
  moreover have "idx ! unat i = INVALID_INDEX"
    using lt by (rule assms(4))
  ultimately show ?case
    using assms(1) by (subst Node48_begin_scan.simps) (simp add: array_at_def unat_u8_less)
qed

lemma Node256_begin_scan_first:
  assumes "length cs = 256" and "j < 256" and "cs ! j \<noteq> None"
    and "\<And>k. k < j \<Longrightarrow> cs ! k = None"
  shows "unat i \<le> j \<Longrightarrow> Node256_begin_scan cs i = returns (Some (of_nat j))"
proof (induction "j - unat i" arbitrary: i)
  case 0
  then have "unat i = j" by simp
  then have "i = of_nat j" by auto
  with assms \<open>unat i = j\<close> show ?case
    by (subst Node256_begin_scan.simps) (simp add: array_at_def)
next
  case (Suc d)
  then have lt: "unat i < j" by simp
  with assms(2) have "unat i + 1 < 256" by simp
  then have succ: "unat (i + 1) = unat i + 1"
    by (simp add: unat_word_ariths)
  with Suc lt have "Node256_begin_scan cs (i + 1) = returns (Some (of_nat j))"
    by (intro Suc.hyps) simp_all
  moreover have "cs ! unat i = None"
    using lt by (rule assms(4))
  ultimately show ?case
    using assms(1) by (subst Node256_begin_scan.simps) (simp add: array_at_def unat_u8_less)
qed

lemma Node48_delegate_loop_first:
  assumes "length idx = 256" and "j < 256" and "idx ! j \<noteq> INVALID_INDEX"
    and "\<And>k. lo \<le> k \<Longrightarrow> k < j \<Longrightarrow> idx ! k = INVALID_INDEX"
  shows "lo \<le> i \<Longrightarrow> i \<le> j \<Longrightarrow>
    Node48_delegate_loop idx cs i = call (array_at cs (unat (idx ! j))) Node_begin"
proof (induction "j - i" arbitrary: i)
  case 0
  with assms show ?case
    by (subst Node48_delegate_loop.simps) (simp add: array_at_def)
next
  case (Suc d)
  then have lt: "i < j" by simp
  with Suc have "Node48_delegate_loop idx cs (i + 1) = call (array_at cs (unat (idx ! j))) Node_begin"
    by (intro Suc.hyps) simp_all
  moreover have "idx ! i = INVALID_INDEX"
    using Suc.prems lt by (intro assms(4))
  ultimately show ?case
    using assms(1,2) lt by (subst Node48_delegate_loop.simps) (simp add: array_at_def)
qed

lemma Node256_delegate_loop_first:
  assumes "length cs = 256" and "j < 256" and "cs ! j = Some c"
    and "\<And>k. lo \<le> k \<Longrightarrow> k < j \<Longrightarrow> cs ! k = None"
  shows "lo \<le> i \<Longrightarrow> i \<le> j \<Longrightarrow> Node256_delegate_loop cs i = Node_begin c"
proof (induction "j - i" arbitrary: i)
  case 0
  with assms show ?case
    by (subst Node256_delegate_loop.simps) (simp add: array_at_def)
next
  case (Suc d)
  then have lt: "i < j" by simp
  with Suc have "Node256_delegate_loop cs (i + 1) = Node_begin c"
    by (intro Suc.hyps) simp_all
  moreover have "cs ! i = None"
    using Suc.prems lt by (intro assms(4))
  ultimately show ?case
    using assms(1,2) lt by (subst Node256_delegate_loop.simps) (simp add: array_at_def)
qed

lemma Node4_delegate_loop_next:
  assumes "length ks = 4" and "p < 4" and "\<And>j. j < p \<Longrightarrow> ks ! j < b" and "b < ks ! p"
    and "p < length cs" and "cs ! p = Some c"
  shows "n \<le> p \<Longrightarrow> Node4_delegate_loop ks cs b key depth f n = Node_begin c"
proof (induction "p - n" arbitrary: n)
  case 0
  then have "n = p" by simp
  with assms show ?case
    by (subst Node4_delegate_loop.simps) (auto simp: array_at_def)
next
  case (Suc d)
  then have "n < p" by simp
  with assms Suc show ?case
    by (subst Node4_delegate_loop.simps) (simp add: array_at_def)
qed

lemma Node48_first_from:
  assumes "distinct (map fst ch)" and "length ch \<le> 48" and mem: "(b', c') \<in> set ch"
    and lo: "lo \<le> unat b'"
    and least: "\<And>k. k \<in> fst ` set ch \<Longrightarrow> lo \<le> unat k \<Longrightarrow> unat b' \<le> unat k"
  shows "\<exists>idx cs. Node48_ctor ch = returns (Node48 idx cs) \<and> length idx = 256 \<and>
     (\<forall>k<256. (idx ! k = INVALID_INDEX) = (of_nat k \<notin> fst ` set ch)) \<and>
     Node48_delegate_loop idx cs lo = Node_begin c' \<and>
     (lo = 0 \<longrightarrow> Node_begin (Node48 idx cs) = Node_begin c')"
proof -
  from Node48_ctor_slots [OF assms(1,2)] obtain idx cs where
    ctor: "Node48_ctor ch = returns (Node48 idx cs)" and len: "length idx = 256"
    and slots: "\<And>j. j < 256 \<Longrightarrow>
      Node48_slot idx cs j = map_option (\<lambda>c. Inr (Some c)) (map_of ch (of_nat j))"
    by blast
  have present: "(idx ! k = INVALID_INDEX) = (of_nat k \<notin> fst ` set ch)" if "k < 256" for k
  proof (cases "map_of ch (of_nat k)")
    case None
    with slots [OF that] have "idx ! k = INVALID_INDEX"
      by (simp add: Node48_slot_def split: if_splits)
    with None show ?thesis by (simp add: map_of_eq_None_iff)
  next
    case (Some c)
    with slots [OF that] have "idx ! k \<noteq> INVALID_INDEX"
      by (simp add: Node48_slot_def split: if_splits)
    moreover from Some have "of_nat k \<in> fst ` set ch"
      by (metis map_of_eq_None_iff option.distinct(1))
    ultimately show ?thesis by simp
  qed
  from assms(1) mem have "map_of ch b' = Some c'" by simp
  with slots [OF unat_u8_less [of b']] have "Node48_slot idx cs (unat b') = Some (Inr (Some c'))"
    by simp
  then have here: "idx ! unat b' \<noteq> INVALID_INDEX"
    and child: "array_at cs (unat (idx ! unat b')) = Inr (Some c')"
    by (auto simp: Node48_slot_def split: if_splits)
  have gap: "idx ! k = INVALID_INDEX" if "lo \<le> k" "k < unat b'" for k
  proof -
    from that have k: "k < 256" using unat_u8_less [of b'] by simp
    have "of_nat k \<notin> fst ` set ch"
    proof
      assume "of_nat k \<in> fst ` set ch"
      from least [OF this] that k show False by (simp add: unat_of_nat_u8)
    qed
    with present [OF k] show ?thesis by simp
  qed
  have loop: "Node48_delegate_loop idx cs lo = Node_begin c'"
    using Node48_delegate_loop_first [OF len unat_u8_less here gap, of lo lo cs] lo child
    by simp
  have "Node_begin (Node48 idx cs) = Node_begin c'" if "lo = 0"
  proof -
    have "Node48_begin_scan idx 0 = returns (Some (of_nat (unat b')))"
      using gap that by (intro Node48_begin_scan_first [OF len unat_u8_less here]) simp_all
    with len child show ?thesis
      by (simp add: array_at_def unat_u8_less)
  qed
  with ctor len present loop show ?thesis by blast
qed

lemma Node256_first_from:
  assumes "distinct (map fst ch)" and mem: "(b', c') \<in> set ch"
    and lo: "lo \<le> unat b'"
    and least: "\<And>k. k \<in> fst ` set ch \<Longrightarrow> lo \<le> unat k \<Longrightarrow> unat b' \<le> unat k"
  shows "\<exists>cs. Node256_ctor ch = returns (Node256 cs) \<and> length cs = 256 \<and>
     (\<forall>k<256. (cs ! k = None) = (of_nat k \<notin> fst ` set ch)) \<and>
     Node256_delegate_loop cs lo = Node_begin c' \<and>
     (lo = 0 \<longrightarrow> Node_begin (Node256 cs) = Node_begin c')"
proof -
  let ?cs = "fold (\<lambda>(k, c) cs. cs[unat k := Some c]) ch (replicate 256 None)"
  have ctor: "Node256_ctor ch = returns (Node256 ?cs)"
    by (rule Node256_ctor_distinct [OF assms(1)])
  have len: "length ?cs = 256" by (simp add: fold_store_length)
  have nth: "?cs ! k = map_of ch (of_nat k)" if "k < 256" for k
    using fold_store_nth [OF assms(1), of "replicate 256 None" k] that
    by (simp split: option.split)
  have present: "(?cs ! k = None) = (of_nat k \<notin> fst ` set ch)" if "k < 256" for k
    using nth [OF that] by (simp add: map_of_eq_None_iff)
  from assms(1) mem have "map_of ch b' = Some c'" by simp
  with nth [OF unat_u8_less [of b']] have here: "?cs ! unat b' = Some c'" by simp
  have gap: "?cs ! k = None" if "lo \<le> k" "k < unat b'" for k
  proof -
    from that have k: "k < 256" using unat_u8_less [of b'] by simp
    have "of_nat k \<notin> fst ` set ch"
    proof
      assume "of_nat k \<in> fst ` set ch"
      from least [OF this] that k show False by (simp add: unat_of_nat_u8)
    qed
    with present [OF k] show ?thesis by simp
  qed
  have loop: "Node256_delegate_loop ?cs lo = Node_begin c'"
    using Node256_delegate_loop_first [OF len unat_u8_less here gap, of lo lo] lo
    by simp
  have "Node_begin (Node256 ?cs) = Node_begin c'" if "lo = 0"
  proof -
    from here have "?cs ! unat b' \<noteq> None" by simp
    then have "Node256_begin_scan ?cs 0 = returns (Some (of_nat (unat b')))"
      using gap that by (intro Node256_begin_scan_first [OF len unat_u8_less]) simp_all
    with len here show ?thesis
      by (simp add: array_at_def unat_u8_less)
  qed
  with ctor len present loop show ?thesis by blast
qed

lemma hd_key_least:
  fixes ch :: "(u8 \<times> Node) list"
  assumes "sorted_wrt (<) (map fst ch)" and "k \<in> fst ` set ch"
  shows "fst (hd ch) \<le> k"
  using assms by (cases ch) auto

lemma node_for_begin:
  assumes sorted: "sorted_wrt (<) (map fst ch)" and "ch \<noteq> []"
  shows "on_built (node_for ch) Node_begin = Node_begin (snd (hd ch))"
proof -
  from assms(2) obtain b0 c0 rest where ch: "ch = (b0, c0) # rest"
    by (cases ch) auto
  from sorted have d: "distinct (map fst ch)"
    by (simp add: strict_sorted_iff)
  have s: "sorted (map fst ch)"
    using sorted by (rule strict_sorted_imp_sorted)
  have least: "unat b0 \<le> unat k" if "k \<in> fst ` set ch" for k
    using hd_key_least [OF sorted that] ch by (simp add: word_le_nat_alt)
  have mem: "(b0, c0) \<in> set ch" using ch by simp
  consider "length ch \<le> 4" | "4 < length ch" "length ch \<le> 16"
    | "16 < length ch" "length ch \<le> 48" | "48 < length ch"
    by linarith
  then show ?thesis
  proof cases
    case 1
    with s ch show ?thesis
      by (simp add: node_for_def Node4_ctor_sorted on_built_def array_at_def)
  next
    case 2
    with s ch show ?thesis
      by (simp add: node_for_def Node16_ctor_sorted on_built_def array_at_def)
  next
    case 3
    from Node48_first_from [OF d 3(2) mem, of 0] least obtain idx cs where
      "Node48_ctor ch = returns (Node48 idx cs)" "Node_begin (Node48 idx cs) = Node_begin c0"
      by auto
    with 3 ch show ?thesis
      by (simp add: node_for_def on_built_def)
  next
    case 4
    from Node256_first_from [OF d mem, of 0] least obtain cs where
      "Node256_ctor ch = returns (Node256 cs)" "Node_begin (Node256 cs) = Node_begin c0"
      by auto
    with 4 ch show ?thesis
      by (simp add: node_for_def on_built_def)
  qed
qed

lemma padded_next:
  fixes ch :: "(u8 \<times> Node) list"
  assumes sorted: "sorted_wrt (<) (map fst ch)" and mem: "(b', c') \<in> set ch" and len: "length ch \<le> N"
    and above: "b < b'" and absent: "b \<notin> fst ` set ch"
    and least: "\<And>k. k \<in> fst ` set ch \<Longrightarrow> b < k \<Longrightarrow> b' \<le> k"
  shows "\<exists>p<length ch.
     (map fst ch @ replicate (N - length ch) INVALID_INDEX) ! p = b' \<and>
     (map (\<lambda>p. Some (snd p)) ch @ replicate (N - length ch) None) ! p = Some c' \<and>
     (\<forall>j<p. (map fst ch @ replicate (N - length ch) INVALID_INDEX) ! j < b) \<and>
     (\<forall>j. p \<le> j \<and> j < N \<longrightarrow> b \<le> (map fst ch @ replicate (N - length ch) INVALID_INDEX) ! j)"
proof -
  let ?ks = "map fst ch @ replicate (N - length ch) INVALID_INDEX"
  from padded_position [OF sorted mem len] obtain p where p: "p < length ch" "?ks ! p = b'"
    "(map (\<lambda>p. Some (snd p)) ch @ replicate (N - length ch) None) ! p = Some c'"
    "\<And>j. j < p \<Longrightarrow> ?ks ! j < b'" "\<And>j. p \<le> j \<Longrightarrow> j < N \<Longrightarrow> b' \<le> ?ks ! j"
    by blast
  have "?ks ! j < b" if "j < p" for j
  proof -
    from that p(1) have key: "?ks ! j \<in> fst ` set ch"
      by (auto simp: nth_append intro!: image_eqI [of _ _ "ch ! j"])
    have "\<not> b < ?ks ! j"
    proof
      assume "b < ?ks ! j"
      from least [OF key this] p(4) [OF that] show False by simp
    qed
    moreover from key absent have "?ks ! j \<noteq> b" by auto
    ultimately show ?thesis by simp
  qed
  moreover have "b \<le> ?ks ! j" if "p \<le> j" "j < N" for j
    using p(5) [OF that] above by simp
  ultimately show ?thesis
    using p(1,2,3) by blast
qed

lemma node_for_next:
  assumes sorted: "sorted_wrt (<) (map fst ch)" and mem: "(b', c') \<in> set ch"
    and above: "b < b'" and absent: "b \<notin> fst ` set ch"
    and least: "\<And>k. k \<in> fst ` set ch \<Longrightarrow> b < k \<Longrightarrow> b' \<le> k"
    and key: "array_at key depth = Inr b"
  shows "on_built (node_for ch) (\<lambda>n. Node_lower_bound n key depth) = Node_begin c'"
    and "on_built (node_for ch) (\<lambda>n. Node_upper_bound n key depth) = Node_begin c'"
proof -
  from sorted have d: "distinct (map fst ch)"
    by (simp add: strict_sorted_iff)
  have s: "sorted (map fst ch)"
    using sorted by (rule strict_sorted_imp_sorted)
  have lo: "unat b + 1 \<le> unat b'"
    using above by (simp add: word_less_nat_alt)
  have least': "unat b' \<le> unat k" if "k \<in> fst ` set ch" "unat b + 1 \<le> unat k" for k
    using least [OF that(1)] that(2) by (simp add: word_less_nat_alt word_le_nat_alt)
  have "on_built (node_for ch) (\<lambda>n. Node_lower_bound n key depth) = Node_begin c' \<and>
        on_built (node_for ch) (\<lambda>n. Node_upper_bound n key depth) = Node_begin c'"
  proof -
    consider "length ch \<le> 4" | "4 < length ch" "length ch \<le> 16"
      | "16 < length ch" "length ch \<le> 48" | "48 < length ch"
      by linarith
    then show ?thesis
    proof cases
      case 1
      let ?ks = "map fst ch @ replicate (4 - length ch) INVALID_INDEX"
      let ?cs = "map (\<lambda>p. Some (snd p)) ch @ replicate (4 - length ch) None"
      from padded_next [OF sorted mem 1 above absent least] obtain p where
        p: "p < length ch" "?ks ! p = b'" "?cs ! p = Some c'" "\<And>j. j < p \<Longrightarrow> ?ks ! j < b"
        by blast
      have "Node4_delegate_loop ?ks ?cs b key depth f 0 = Node_begin c'" for f
        using 1 p above by (intro Node4_delegate_loop_next [where p = p]) simp_all
      with 1 s show ?thesis
        by (simp add: node_for_def Node4_ctor_sorted on_built_def Node4_delegate_to_child_def key)
    next
      case 2
      let ?ks = "map fst ch @ replicate (16 - length ch) INVALID_INDEX"
      let ?cs = "map (\<lambda>p. Some (snd p)) ch @ replicate (16 - length ch) None"
      from padded_next [OF sorted mem 2(2) above absent least] obtain p where
        p: "p < length ch" "?ks ! p = b'" "?cs ! p = Some c'" "\<And>j. j < p \<Longrightarrow> ?ks ! j < b"
          "\<And>j. p \<le> j \<Longrightarrow> j < 16 \<Longrightarrow> b \<le> ?ks ! j"
        by blast
      have pos: "std_lower_bound ?ks b = p"
        using 2 p by (intro std_lower_bound_partition) simp_all
      from p 2 have "array_at ?cs p = Inr (Some c')" "array_at ?ks p = Inr b'" "p < 16"
        by (simp_all add: array_at_def)
      moreover from above have "b' \<noteq> b" by simp
      ultimately show ?thesis
        using 2 s pos
        by (simp add: node_for_def Node16_ctor_sorted on_built_def Node16_delegate_to_child_def key)
    next
      case 3
      from Node48_first_from [OF d 3(2) mem lo least'] obtain idx cs where
        ctor: "Node48_ctor ch = returns (Node48 idx cs)" and len: "length idx = 256"
        and present: "\<And>k. k < 256 \<Longrightarrow> (idx ! k = INVALID_INDEX) = (of_nat k \<notin> fst ` set ch)"
        and loop: "Node48_delegate_loop idx cs (unat b + 1) = Node_begin c'"
        by blast
      from present [OF unat_u8_less [of b]] absent have "idx ! unat b = INVALID_INDEX"
        by simp
      with len have "array_at idx (unat b) = Inr INVALID_INDEX"
        by (simp add: array_at_def unat_u8_less)
      with 3 ctor loop show ?thesis
        by (simp add: node_for_def on_built_def Node48_delegate_to_child_def key)
    next
      case 4
      from Node256_first_from [OF d mem lo least'] obtain cs where
        ctor: "Node256_ctor ch = returns (Node256 cs)" and len: "length cs = 256"
        and present: "\<And>k. k < 256 \<Longrightarrow> (cs ! k = None) = (of_nat k \<notin> fst ` set ch)"
        and loop: "Node256_delegate_loop cs (unat b + 1) = Node_begin c'"
        by blast
      from present [OF unat_u8_less [of b]] absent have "cs ! unat b = None"
        by simp
      with len have "array_at cs (unat b) = Inr None"
        by (simp add: array_at_def unat_u8_less)
      with 4 ctor loop show ?thesis
        by (simp add: node_for_def on_built_def Node256_delegate_to_child_def key)
    qed
  qed
  then show "on_built (node_for ch) (\<lambda>n. Node_lower_bound n key depth) = Node_begin c'"
    and "on_built (node_for ch) (\<lambda>n. Node_upper_bound n key depth) = Node_begin c'"
    by simp_all
qed

lemma partition_at_conv:
  "partition_at G d b = filter (\<lambda>e. (case e of (key, positions) \<Rightarrow> key ! d) = b) G"
  unfolding partition_at_def by (rule filter_cong) auto

lemma partition_shares:
  assumes "\<And>k r. (k, r) \<in> set G \<Longrightarrow> take d k = p \<and> d < length k"
    and "(k, r) \<in> set (partition_at G d b)"
  shows "take (Suc d) k = p @ [b]"
proof -
  from assms(2) have "(k, r) \<in> set G" "k ! d = b"
    by (auto simp: partition_at_def)
  with assms(1) [of k r] show ?thesis
    by (simp add: take_Suc_conv_app_nth)
qed

lemma bulk_insert_returns:
  fixes G :: "(BinaryComparable \<times> Iterator \<times> Iterator) list"
  assumes "distinct (map fst G)" and "\<And>k r. (k, r) \<in> set G \<Longrightarrow> length k = L"
    and "\<And>k r. (k, r) \<in> set G \<Longrightarrow> take d k = p" and "G \<noteq> []"
  shows "\<exists>n. bulk_insert G d = returns n"
proof -
  from assms(4) obtain key lower upper where m: "(key, lower, upper) \<in> set G"
    by (cases G) auto
  have "on_built (bulk_insert G d) (\<lambda>t. Node_lower_bound t key d) = returns lower \<and>
        on_built (bulk_insert G d) (\<lambda>t. Node_upper_bound t key d) = returns upper"
    using assms(1,2) _ m
  proof (rule bulk_insert_bounds_at)
    fix k r assume "(k, r) \<in> set G"
    then show "take d k = take d key"
      using assms(3) m by metis
  qed
  then show ?thesis by (blast dest: on_built_returns)
qed

lemma bulk_insert_children:
  fixes G :: "(BinaryComparable \<times> Iterator \<times> Iterator) list"
  assumes distinct: "distinct (map fst G)" and len: "\<And>k r. (k, r) \<in> set G \<Longrightarrow> length k = L"
    and share: "\<And>k r. (k, r) \<in> set G \<Longrightarrow> take d k = p" and many: "2 \<le> length G"
  shows "d < L"
    and "\<exists>children. bulk_insert G d = node_for children \<and>
      map fst children = present_bytes G d \<and>
      (\<forall>b n. (b, n) \<in> set children \<longrightarrow> bulk_insert (partition_at G d b) (d + 1) = returns n)"
proof -
  from many obtain e1 e2 rest where G: "G = e1 # e2 # rest"
    by (cases G; cases "tl G") auto
  obtain k1 r1 k2 r2 where e: "e1 = (k1, r1)" "e2 = (k2, r2)"
    by (cases e1; cases e2) auto
  with G distinct have ne: "k1 \<noteq> k2" by auto
  from G e len [of k1 r1] len [of k2 r2] have L: "length k1 = L" "length k2 = L" by simp_all
  from G e share [of k1 r1] share [of k2 r2] have same: "take d k1 = take d k2" by simp
  show depth: "d < L"
  proof (rule ccontr)
    assume "\<not> d < L"
    with L same have "k1 = k2" by simp
    with ne show False by simp
  qed
  have no_short: "\<not> list_ex (\<lambda>(key, positions). length key \<le> d) G"
    using len depth by (auto simp: list_ex_iff)
  have "\<exists>n. bulk_insert (partition_at G d b) (d + 1) = returns n"
    if "b \<in> set (present_bytes G d)" for b
  proof (rule bulk_insert_returns)
    show "distinct (map fst (partition_at G d b))"
      unfolding partition_at_def by (rule distinct_map_filter [OF distinct])
    show "partition_at G d b \<noteq> []"
      using that by (simp add: set_present_bytes)
    fix k r assume m: "(k, r) \<in> set (partition_at G d b)"
    then have mG: "(k, r) \<in> set G"
      by (simp add: partition_at_def)
    show "length k = L"
      by (rule len [OF mG])
    have "take d k' = p \<and> d < length k'" if "(k', r') \<in> set G" for k' r'
      using share [OF that] len [OF that] depth by simp
    from partition_shares [OF this m] show "take (d + 1) k = p @ [b]"
      by simp
  qed
  from collect_returns [of "present_bytes G d" "\<lambda>b. bulk_insert (partition_at G d b) (d + 1)",
      OF this]
  obtain children where
    "collect (map (\<lambda>b. (b, bulk_insert (partition_at G d b) (d + 1))) (present_bytes G d)) =
       returns children"
    "map fst children = present_bytes G d"
    "\<forall>(b, n) \<in> set children. bulk_insert (partition_at G d b) (d + 1) = returns n"
    by blast
  moreover from many have "length G \<noteq> 1" by simp
  ultimately show "\<exists>children. bulk_insert G d = node_for children \<and>
      map fst children = present_bytes G d \<and>
      (\<forall>b n. (b, n) \<in> set children \<longrightarrow> bulk_insert (partition_at G d b) (d + 1) = returns n)"
    using no_short by (intro exI [of _ children]) (auto simp: bulk_insert_many)
qed

lemma bulk_insert_descend:
  fixes G :: "(BinaryComparable \<times> Iterator \<times> Iterator) list"
  assumes distinct: "distinct (map fst G)" and len: "\<And>k r. (k, r) \<in> set G \<Longrightarrow> length k = L"
    and share: "\<And>k r. (k, r) \<in> set G \<Longrightarrow> take d k = p" and many: "2 \<le> length G"
    and q: "d < length q" and follow: "(k0, r0) \<in> set G" "k0 ! d = q ! d"
  shows "on_built (bulk_insert G d) (\<lambda>t. Node_lower_bound t q d) =
         on_built (bulk_insert (partition_at G d (q ! d)) (d + 1)) (\<lambda>t. Node_lower_bound t q (d + 1))"
    and "on_built (bulk_insert G d) (\<lambda>t. Node_upper_bound t q d) =
         on_built (bulk_insert (partition_at G d (q ! d)) (d + 1)) (\<lambda>t. Node_upper_bound t q (d + 1))"
proof -
  have "\<exists>children. bulk_insert G d = node_for children \<and>
      map fst children = present_bytes G d \<and>
      (\<forall>b n. (b, n) \<in> set children \<longrightarrow> bulk_insert (partition_at G d b) (d + 1) = returns n)"
    by (rule bulk_insert_children(2) [OF distinct _ _ many]; (rule len | rule share); assumption)
  then obtain children where
    node: "bulk_insert G d = node_for children"
    and bytes: "map fst children = present_bytes G d"
    and built: "\<And>b n. (b, n) \<in> set children \<Longrightarrow>
      bulk_insert (partition_at G d b) (d + 1) = returns n"
    by blast
  from follow have "partition_at G d (q ! d) \<noteq> []"
    by (auto simp: partition_at_def filter_empty_conv)
  then have "q ! d \<in> set (map fst children)"
    unfolding bytes by (simp add: set_present_bytes)
  then obtain c where c: "(q ! d, c) \<in> set children" by auto
  have sorted: "sorted_wrt (<) (map fst children)"
    unfolding bytes by (rule sorted_present_bytes)
  have key_at: "array_at q d = Inr (q ! d)"
    using q by (simp add: array_at_def)
  show "on_built (bulk_insert G d) (\<lambda>t. Node_lower_bound t q d) =
         on_built (bulk_insert (partition_at G d (q ! d)) (d + 1)) (\<lambda>t. Node_lower_bound t q (d + 1))"
    using node_for_exact_match(1) [OF sorted c key_at] built [OF c] node
    by (simp add: on_built_def)
  show "on_built (bulk_insert G d) (\<lambda>t. Node_upper_bound t q d) =
         on_built (bulk_insert (partition_at G d (q ! d)) (d + 1)) (\<lambda>t. Node_upper_bound t q (d + 1))"
    using node_for_exact_match(2) [OF sorted c key_at] built [OF c] node
    by (simp add: on_built_def)
qed

lemma hd_least_byte:
  fixes bs :: "u8 list"
  assumes "sorted_wrt (<) bs" and "b \<in> set bs"
  shows "hd bs \<le> b"
  using assms by (cases bs) auto

lemma share_next:
  fixes G :: "(BinaryComparable \<times> Iterator \<times> Iterator) list"
  assumes "(k, r) \<in> set (partition_at G d (q ! d))" and "take d k = take d q"
    and "d < length k" and "d < length q"
  shows "take (d + 1) k = take (d + 1) q"
proof -
  from assms(1) have "k ! d = q ! d" by (simp add: partition_at_def)
  with assms(2-4) show ?thesis by (simp add: take_Suc_conv_app_nth)
qed

lemma sharing_partition:
  fixes G :: "(BinaryComparable \<times> Iterator \<times> Iterator) list"
  assumes "depth < d"
  shows "filter (\<lambda>(k, r). take d k = take d q) (partition_at G depth (q ! depth)) =
         filter (\<lambda>(k, r). take d k = take d q) G"
proof -
  have byte: "k ! depth = q ! depth" if "take d k = take d q" for k :: BinaryComparable
  proof -
    from assms have "k ! depth = take d k ! depth" by simp
    also have "\<dots> = take d q ! depth" using that by simp
    also have "\<dots> = q ! depth" using assms by simp
    finally show ?thesis .
  qed
  have "filter (\<lambda>x. (case x of (key, positions) \<Rightarrow> key ! depth = q ! depth) \<and>
          (case x of (k, r) \<Rightarrow> take d k = take d q)) G =
        filter (\<lambda>(k, r). take d k = take d q) G"
  proof (rule filter_cong [OF refl])
    fix x assume "x \<in> set G"
    obtain k r where x: "x = (k, r)" by (cases x)
    show "((case x of (key, positions) \<Rightarrow> key ! depth = q ! depth) \<and>
          (case x of (k, r) \<Rightarrow> take d k = take d q)) =
        (case x of (k, r) \<Rightarrow> take d k = take d q)"
      unfolding x using byte [of k] by blast
  qed
  then show ?thesis
    unfolding partition_at_def filter_filter .
qed

lemma bulk_insert_begin:
  fixes G :: "(BinaryComparable \<times> Iterator \<times> Iterator) list"
  assumes "sorted_wrt (<) (map fst G)" and "\<And>k r. (k, r) \<in> set G \<Longrightarrow> length k = L"
    and "\<And>k r. (k, r) \<in> set G \<Longrightarrow> take d k = p" and "G \<noteq> []"
  shows "on_built (bulk_insert G d) Node_begin = returns (fst (snd (hd G)))"
  using assms
proof (induction "L - d" arbitrary: G d p rule: less_induct)
  case less
  note sorted = less.prems(1) and len = less.prems(2) and share = less.prems(3)
  from sorted have distinct: "distinct (map fst G)"
    by (simp add: strict_sorted_iff)
  show ?case
  proof (cases "length G = 1")
    case True
    then obtain k l u where "G = [(k, l, u)]"
      by (cases G) auto
    then show ?thesis by (simp add: on_built_def)
  next
    case False
    moreover from less.prems(4) have "length G \<noteq> 0" by simp
    ultimately have many: "2 \<le> length G" by linarith
    have depth: "d < L"
      by (rule bulk_insert_children(1) [OF distinct _ _ many]; (rule len | rule share); assumption)
    have "\<exists>children. bulk_insert G d = node_for children \<and>
        map fst children = present_bytes G d \<and>
        (\<forall>b n. (b, n) \<in> set children \<longrightarrow> bulk_insert (partition_at G d b) (d + 1) = returns n)"
      by (rule bulk_insert_children(2) [OF distinct _ _ many]; (rule len | rule share); assumption)
    then obtain children where node: "bulk_insert G d = node_for children"
      and bytes: "map fst children = present_bytes G d"
      and built: "\<And>b n. (b, n) \<in> set children \<Longrightarrow>
        bulk_insert (partition_at G d b) (d + 1) = returns n"
      by blast
    let ?f = "\<lambda>e :: BinaryComparable \<times> Iterator \<times> Iterator. case e of (key, positions) \<Rightarrow> key ! d"
    have fsorted: "sorted (map ?f G)"
    proof (rule group_bytes_sorted [OF sorted])
      fix k r assume "(k, r) \<in> set G"
      then show "take d k = p \<and> d < length k"
        using share len depth by metis
    qed
    have hdG: "hd G \<in> set G" using less.prems(4) by simp
    then have "partition_at G d (?f (hd G)) \<noteq> []"
      by (auto simp: partition_at_conv filter_empty_conv)
    then have present: "?f (hd G) \<in> set (present_bytes G d)"
      by (simp add: set_present_bytes)
    then have nonempty: "children \<noteq> []"
      using bytes by auto
    obtain bh ch where hd_children: "hd children = (bh, ch)"
      by (cases "hd children")
    with nonempty have in_children: "(bh, ch) \<in> set children"
      by (metis hd_in_set)
    from hd_children nonempty have bh: "bh = hd (present_bytes G d)"
      using bytes by (metis fst_conv hd_map)
    have "bh \<le> ?f (hd G)"
      unfolding bh by (rule hd_least_byte [OF sorted_present_bytes present])
    moreover have "?f (hd G) \<le> bh"
    proof -
      from in_children have "bh \<in> set (present_bytes G d)"
        using bytes by (metis fst_conv image_eqI set_map)
      then obtain e where "e \<in> set G" "?f e = bh"
        by (auto simp: set_present_bytes partition_at_conv filter_empty_conv)
      with sorted_hd_least [OF fsorted, of e] show ?thesis by simp
    qed
    ultimately have bh_eq: "bh = ?f (hd G)" by simp
    have part_hd: "hd (partition_at G d bh) = hd G"
      unfolding bh_eq partition_at_conv by (rule hd_filter_hd [OF less.prems(4)])
    have part_ne: "partition_at G d bh \<noteq> []"
      using hdG unfolding bh_eq by (auto simp: partition_at_conv filter_empty_conv)
    have "on_built (bulk_insert (partition_at G d bh) (d + 1)) Node_begin =
        returns (fst (snd (hd (partition_at G d bh))))"
    proof (rule less.hyps [OF _ _ _ _ part_ne])
      show "L - (d + 1) < L - d" using depth by simp
      show "sorted_wrt (<) (map fst (partition_at G d bh))"
        using sorted unfolding partition_at_def sorted_wrt_map by (rule sorted_wrt_filter)
      fix k r assume m: "(k, r) \<in> set (partition_at G d bh)"
      then have mG: "(k, r) \<in> set G" by (simp add: partition_at_def)
      show "length k = L" by (rule len [OF mG])
      have "take d k' = p \<and> d < length k'" if "(k', r') \<in> set G" for k' r'
        using share [OF that] len [OF that] depth by simp
      from partition_shares [OF this m] show "take (d + 1) k = p @ [bh]" by simp
    qed
    with built [OF in_children] part_hd
    have "Node_begin ch = returns (fst (snd (hd G)))"
      by (simp add: on_built_def)
    moreover have "sorted_wrt (<) (map fst children)"
      unfolding bytes by (rule sorted_present_bytes)
    ultimately show ?thesis
      using node_for_begin [OF _ nonempty] node hd_children by simp
  qed
qed

lemma bulk_insert_leaf_at:
  fixes G :: "(BinaryComparable \<times> Iterator \<times> Iterator) list"
  assumes "distinct (map fst G)" and "\<And>k r. (k, r) \<in> set G \<Longrightarrow> length k = L"
    and "\<And>k r. (k, r) \<in> set G \<Longrightarrow> take depth k = take depth q"
    and "filter (\<lambda>(k, r). take d k = take d q) G = [(kj, lj, uj)]"
    and "depth \<le> d" and "d \<le> length q"
  shows "on_built (bulk_insert G depth) (\<lambda>t. Node_lower_bound t q depth) = returns lj \<and>
         on_built (bulk_insert G depth) (\<lambda>t. Node_upper_bound t q depth) = returns uj"
  using assms
proof (induction "d - depth" arbitrary: G depth rule: less_induct)
  case less
  note distinct = less.prems(1) and len = less.prems(2) and share = less.prems(3)
    and one = less.prems(4)
  have "(kj, lj, uj) \<in> set (filter (\<lambda>(k, r). take d k = take d q) G)"
    unfolding one by simp
  then have mem: "(kj, lj, uj) \<in> set G" and kj: "take d kj = take d q"
    by simp_all
  show ?case
  proof (cases "length G = 1")
    case True
    with mem have "G = [(kj, lj, uj)]"
      by (cases G) auto
    then show ?thesis by (simp add: on_built_def)
  next
    case False
    moreover from mem have "length G \<noteq> 0" by auto
    ultimately have many: "2 \<le> length G" by linarith
    have below: "depth < d"
    proof (rule ccontr)
      assume "\<not> depth < d"
      with less.prems(5) have "depth = d" by simp
      with share have "filter (\<lambda>(k, r). take d k = take d q) G = G"
        by (auto simp: filter_id_conv)
      with one many show False by simp
    qed
    have depth: "depth < L"
      by (rule bulk_insert_children(1) [OF distinct _ _ many]; (rule len | rule share); assumption)
    from below less.prems(6) have q: "depth < length q" by simp
    have follow: "kj ! depth = q ! depth"
    proof -
      from below have "kj ! depth = take d kj ! depth" by simp
      also have "\<dots> = take d q ! depth" using kj by simp
      also have "\<dots> = q ! depth" using below by simp
      finally show ?thesis .
    qed
    let ?P = "partition_at G depth (q ! depth)"
    have "on_built (bulk_insert ?P (depth + 1)) (\<lambda>t. Node_lower_bound t q (depth + 1)) = returns lj \<and>
          on_built (bulk_insert ?P (depth + 1)) (\<lambda>t. Node_upper_bound t q (depth + 1)) = returns uj"
    proof (rule less.hyps)
      show "d - (depth + 1) < d - depth" using below by simp
      show "distinct (map fst ?P)"
        unfolding partition_at_def by (rule distinct_map_filter [OF distinct])
      show "filter (\<lambda>(k, r). take d k = take d q) ?P = [(kj, lj, uj)]"
        using sharing_partition [OF below] one by simp
      show "depth + 1 \<le> d" using below by simp
      show "d \<le> length q" by fact
      fix k r assume m: "(k, r) \<in> set ?P"
      then have mG: "(k, r) \<in> set G" by (simp add: partition_at_def)
      show "length k = L" by (rule len [OF mG])
      show "take (depth + 1) k = take (depth + 1) q"
        using share [OF mG] len [OF mG] depth q by (intro share_next [OF m]) simp_all
    qed
    moreover have "on_built (bulk_insert G depth) (\<lambda>t. Node_lower_bound t q depth) =
         on_built (bulk_insert ?P (depth + 1)) (\<lambda>t. Node_lower_bound t q (depth + 1))"
      by (rule bulk_insert_descend(1) [OF distinct _ _ many q mem follow];
          (rule len | rule share); assumption)
    moreover have "on_built (bulk_insert G depth) (\<lambda>t. Node_upper_bound t q depth) =
         on_built (bulk_insert ?P (depth + 1)) (\<lambda>t. Node_upper_bound t q (depth + 1))"
      by (rule bulk_insert_descend(2) [OF distinct _ _ many q mem follow];
          (rule len | rule share); assumption)
    ultimately show ?thesis by simp
  qed
qed

lemma bulk_insert_next_at:
  fixes G :: "(BinaryComparable \<times> Iterator \<times> Iterator) list"
  assumes "sorted_wrt (<) (map fst G)" and "\<And>k r. (k, r) \<in> set G \<Longrightarrow> length k = L"
    and "\<And>k r. (k, r) \<in> set G \<Longrightarrow> take depth k = take depth q"
    and "depth \<le> d" and "d < length q"
    and "2 \<le> length (filter (\<lambda>(k, r). take d k = take d q) G)"
    and "\<And>k r. (k, r) \<in> set G \<Longrightarrow> take d k = take d q \<Longrightarrow> k ! d \<noteq> q ! d"
    and "filter (\<lambda>(k, r). q ! d < k ! d) (filter (\<lambda>(k, r). take d k = take d q) G) =
           (km, lm, um) # rest"
  shows "on_built (bulk_insert G depth) (\<lambda>t. Node_lower_bound t q depth) = returns lm \<and>
         on_built (bulk_insert G depth) (\<lambda>t. Node_upper_bound t q depth) = returns lm"
  using assms
proof (induction "d - depth" arbitrary: G depth rule: less_induct)
  case less
  note sorted = less.prems(1) and len = less.prems(2) and share = less.prems(3)
    and group = less.prems(6) and nochild = less.prems(7) and nxt = less.prems(8)
  from sorted have distinct: "distinct (map fst G)"
    by (simp add: strict_sorted_iff)
  have many: "2 \<le> length G"
    by (rule order_trans [OF group length_filter_le])
  have depth: "depth < L"
    by (rule bulk_insert_children(1) [OF distinct _ _ many]; (rule len | rule share); assumption)
  show ?case
  proof (cases "depth = d")
    case True
    have all: "filter (\<lambda>(k, r). take d k = take d q) G = G"
      using share unfolding True by (auto simp: filter_id_conv)
    have "\<exists>children. bulk_insert G d = node_for children \<and>
        map fst children = present_bytes G d \<and>
        (\<forall>b n. (b, n) \<in> set children \<longrightarrow> bulk_insert (partition_at G d b) (d + 1) = returns n)"
      by (rule bulk_insert_children(2) [OF distinct _ _ many]; (rule len | rule share [unfolded True]);
          assumption)
    then obtain children where node: "bulk_insert G d = node_for children"
      and bytes: "map fst children = present_bytes G d"
      and built: "\<And>b n. (b, n) \<in> set children \<Longrightarrow>
        bulk_insert (partition_at G d b) (d + 1) = returns n"
      by blast
    let ?f = "\<lambda>e :: BinaryComparable \<times> Iterator \<times> Iterator. case e of (key, positions) \<Rightarrow> key ! d"
    have fsorted: "sorted (map ?f G)"
    proof (rule group_bytes_sorted [OF sorted])
      fix k r assume "(k, r) \<in> set G"
      then show "take d k = take d q \<and> d < length k"
        using share len depth unfolding True by metis
    qed
    have "(\<lambda>(k, r). q ! d < k ! d) = (\<lambda>e. q ! d < ?f e)"
      by (auto simp: fun_eq_iff)
    with nxt have first: "filter (\<lambda>e. q ! d < ?f e) G = (km, lm, um) # rest"
      unfolding all by simp
    note above = sorted_first_above [OF fsorted first]
    have absent: "q ! d \<notin> fst ` set children"
    proof
      assume "q ! d \<in> fst ` set children"
      then have "q ! d \<in> set (present_bytes G d)"
        using bytes by (metis set_map)
      then obtain k r where m: "(k, r) \<in> set G" and "k ! d = q ! d"
        by (auto simp: set_present_bytes partition_at_def filter_empty_conv)
      with nochild [OF m] share [OF m] True show False by simp
    qed
    have "partition_at G d (km ! d) \<noteq> []"
      using above(4) by (auto simp: partition_at_def filter_empty_conv)
    then have "km ! d \<in> set (map fst children)"
      unfolding bytes by (simp add: set_present_bytes)
    then obtain c' where c': "(km ! d, c') \<in> set children" by auto
    have least: "km ! d \<le> k" if "k \<in> fst ` set children" "q ! d < k" for k
    proof -
      from that(1) have "k \<in> set (present_bytes G d)"
        using bytes by (metis set_map)
      then obtain e where "e \<in> set G" "?f e = k"
        by (auto simp: set_present_bytes partition_at_conv filter_empty_conv)
      with above(3) [of e] that(2) show ?thesis by simp
    qed
    have sorted_children: "sorted_wrt (<) (map fst children)"
      unfolding bytes by (rule sorted_present_bytes)
    have key_at: "array_at q d = Inr (q ! d)"
      using less.prems(5) by (simp add: array_at_def)
    from above(2) have larger: "q ! d < km ! d" by simp
    have part_hd: "hd (partition_at G d (km ! d)) = (km, lm, um)"
      using above(1) by (simp add: partition_at_conv)
    have "on_built (bulk_insert (partition_at G d (km ! d)) (d + 1)) Node_begin =
        returns (fst (snd (hd (partition_at G d (km ! d)))))"
    proof (rule bulk_insert_begin [OF _ _ _ \<open>partition_at G d (km ! d) \<noteq> []\<close>])
      show "sorted_wrt (<) (map fst (partition_at G d (km ! d)))"
        using sorted unfolding partition_at_def sorted_wrt_map by (rule sorted_wrt_filter)
      fix k r assume m: "(k, r) \<in> set (partition_at G d (km ! d))"
      then have mG: "(k, r) \<in> set G" by (simp add: partition_at_def)
      show "length k = L" by (rule len [OF mG])
      have "take d k' = take d q \<and> d < length k'" if "(k', r') \<in> set G" for k' r'
        using share [OF that] len [OF that] depth True by simp
      from partition_shares [OF this m] show "take (d + 1) k = take d q @ [km ! d]" by simp
    qed
    with built [OF c'] part_hd have "Node_begin c' = returns lm"
      by (simp add: on_built_def)
    with node_for_next [OF sorted_children c' larger absent least key_at] node True
    show ?thesis by simp
  next
    case False
    with less.prems(4) have below: "depth < d" by simp
    with less.prems(5) have q: "depth < length q" by simp
    from group have "filter (\<lambda>(k, r). take d k = take d q) G \<noteq> []"
      by auto
    then obtain e where e: "e \<in> set (filter (\<lambda>(k, r). take d k = take d q) G)"
      by (meson hd_in_set)
    obtain k0 r0 where "e = (k0, r0)" by (cases e)
    with e have mem: "(k0, r0) \<in> set G" and k0: "take d k0 = take d q"
      by simp_all
    have follow: "k0 ! depth = q ! depth"
    proof -
      from below have "k0 ! depth = take d k0 ! depth" by simp
      also have "\<dots> = take d q ! depth" using k0 by simp
      also have "\<dots> = q ! depth" using below by simp
      finally show ?thesis .
    qed
    let ?P = "partition_at G depth (q ! depth)"
    have "on_built (bulk_insert ?P (depth + 1)) (\<lambda>t. Node_lower_bound t q (depth + 1)) = returns lm \<and>
          on_built (bulk_insert ?P (depth + 1)) (\<lambda>t. Node_upper_bound t q (depth + 1)) = returns lm"
    proof (rule less.hyps)
      show "d - (depth + 1) < d - depth" using below by simp
      show "sorted_wrt (<) (map fst ?P)"
        using sorted unfolding partition_at_def sorted_wrt_map by (rule sorted_wrt_filter)
      show "depth + 1 \<le> d" using below by simp
      show "d < length q" by fact
      show "2 \<le> length (filter (\<lambda>(k, r). take d k = take d q) ?P)"
        using sharing_partition [OF below] group by simp
      show "filter (\<lambda>(k, r). q ! d < k ! d) (filter (\<lambda>(k, r). take d k = take d q) ?P) =
           (km, lm, um) # rest"
        using sharing_partition [OF below] nxt by simp
    next
      fix k r assume m: "(k, r) \<in> set ?P"
      then have mG: "(k, r) \<in> set G" by (simp add: partition_at_def)
      show "length k = L" by (rule len [OF mG])
      show "take (depth + 1) k = take (depth + 1) q"
        using share [OF mG] len [OF mG] depth q by (intro share_next [OF m]) simp_all
      show "take d k = take d q \<Longrightarrow> k ! d \<noteq> q ! d"
        by (rule nochild [OF mG])
    qed
    moreover have "on_built (bulk_insert G depth) (\<lambda>t. Node_lower_bound t q depth) =
         on_built (bulk_insert ?P (depth + 1)) (\<lambda>t. Node_lower_bound t q (depth + 1))"
      by (rule bulk_insert_descend(1) [OF distinct _ _ many q mem follow];
          (rule len | rule share); assumption)
    moreover have "on_built (bulk_insert G depth) (\<lambda>t. Node_upper_bound t q depth) =
         on_built (bulk_insert ?P (depth + 1)) (\<lambda>t. Node_upper_bound t q (depth + 1))"
      by (rule bulk_insert_descend(2) [OF distinct _ _ many q mem follow];
          (rule len | rule share); assumption)
    ultimately show ?thesis by simp
  qed
qed

lemma lex_less_byte:
  fixes q k :: "u8 list"
  assumes "take d k = take d q" and "d < length k" and "d < length q" and "k ! d \<noteq> q ! d"
  shows "(q < k) = (q ! d < k ! d)"
proof -
  have k: "k = take d q @ k ! d # drop (Suc d) k"
    unfolding assms(1) [symmetric] by (rule id_take_nth_drop [OF assms(2)])
  have q: "q = take d q @ q ! d # drop (Suc d) q"
    by (rule id_take_nth_drop [OF assms(3)])
  have "irrefl {(u, v :: u8). u < v}"
    by (simp add: irrefl_def)
  then have "(q < k) = ((q ! d # drop (Suc d) q, k ! d # drop (Suc d) k) \<in> lexord {(u, v). u < v})"
    unfolding list_less_def by (subst q, subst k) simp
  with assms(4) show ?thesis by auto
qed

text \<open>
  When the byte of \<open>q\<close> is above the bytes of all children of the node where the descent stops,
  the node answers through \<open>end()\<close>, or, for the byte 255 in a \<open>Node4\<close> or \<open>Node16\<close> with an
  unused slot, calls the null child of that slot.
\<close>

lemma query_above_last_key_calls_null_child:
  "on_built (bulk_insert (one_byte_keys 2) 0) (\<lambda>root. Node_lower_bound root [255] 0)
     = fails null_dereference \<and>
   on_built (bulk_insert (one_byte_keys 2) 0) (\<lambda>root. Node_upper_bound root [255] 0)
     = fails null_dereference \<and>
   on_built (bulk_insert (one_byte_keys 2) 0) Node_end = returns 2"
  by code_simp

section \<open>The claims\<close>

text \<open>
  C1. For every inner node shape holding at least one child, \<open>end()\<close> returns the result of
  \<open>end()\<close> on the rightmost present child, not that child's \<open>begin()\<close>.

  \<^verbatim>\<open>Node48::end\<close> and \<^verbatim>\<open>Node256::end\<close> call \<open>begin()\<close> on the child they find. On a \<open>Node48\<close> of 17
  leaves and a \<open>Node256\<close> of 49 leaves, \<open>end()\<close> is the first position of the last leaf (16 and
  48), not the position behind it (17 and 49).
\<close>

theorem Node48_Node256_end_is_begin_of_last_child:
  "on_built (Node48_ctor (leaves 17)) Node_end = returns 16 \<and>
   on_built (Node256_ctor (leaves 49)) Node_end = returns 48 \<and>
   Node_begin (Leaf 16 17) = returns 16 \<and> Node_end (Leaf 16 17) = returns 17 \<and>
   Node_begin (Leaf 48 49) = returns 48 \<and> Node_end (Leaf 48 49) = returns 49"
  by code_simp

text \<open>
  C2. A \<open>Node4\<close>, \<open>Node16\<close>, \<open>Node48\<close> and \<open>Node256\<close> built from the same pairs give identical
  results for \<open>lower_bound\<close>, \<open>upper_bound\<close>, \<open>begin\<close> and \<open>end\<close>.

  Built from the same two leaves, the sorted shapes answer \<open>end()\<close> and a query above both
  partial keys with position 2, the directly addressed shapes with position 1.
\<close>

theorem shapes_differ_on_two_leaves:
  "on_built (Node4_ctor (leaves 2)) Node_end = returns 2 \<and>
   on_built (Node16_ctor (leaves 2)) Node_end = returns 2 \<and>
   on_built (Node48_ctor (leaves 2)) Node_end = returns 1 \<and>
   on_built (Node256_ctor (leaves 2)) Node_end = returns 1 \<and>
   on_built (Node4_ctor (leaves 2)) (\<lambda>n. Node_lower_bound n [7] 0) = returns 2 \<and>
   on_built (Node256_ctor (leaves 2)) (\<lambda>n. Node_lower_bound n [7] 0) = returns 1"
  by code_simp

text \<open>
  C3. For a tree bulk-built from distinct ascending keys with contiguous ranges,
  \<open>lower_bound(k\<^sub>i, 0)\<close> on the root returns the begin of range \<open>i\<close> and \<open>upper_bound(k\<^sub>i, 0)\<close> its end,
  which for the last key equals the global \<open>end()\<close>.

  The two bounds of every stored key are the ends of its range (\<open>bulk_insert_bounds\<close>), but
  the end of the last range is not \<open>end()\<close> of the root: for the 18 two-byte keys the root is a
  \<open>Node48\<close>, \<open>upper_bound\<close> of the last key is position 18, and \<open>end()\<close> of the root is position 16,
  the first position under its last child.
\<close>

theorem upper_bound_of_last_key_is_not_end:
  "on_built (bulk_insert two_byte_keys 0) (\<lambda>root. Node_upper_bound root [16, 1] 0) = returns 18 \<and>
   on_built (bulk_insert two_byte_keys 0) Node_end = returns 16"
  by code_simp

text \<open>
  C4. For a query key strictly between two stored keys both bounds return the begin of the
  next range, and for a query key above the last stored key both return the global \<open>end()\<close>.

  A leaf answers with its own range whatever the key is, and the driver puts a leaf where a
  single entry remains. For the keys \<open>[1, 0]\<close> and \<open>[2, 0]\<close> the leaf of the first key is the
  child for the byte 1 of the root, so \<open>lower_bound\<close> of \<open>[1, 5]\<close>, which lies between the two
  keys, is position 0, the begin of the first range, and not position 2, the begin of the
  second. For the single key \<open>[5]\<close> the root is its leaf, and \<open>lower_bound\<close> of \<open>[7]\<close>, above the
  key, is position 0 while \<open>end()\<close> is position 3.
\<close>

theorem lower_bound_between_keys_is_begin_of_smaller_key:
  "on_built (bulk_insert [([1, 0], 0, 2), ([2, 0], 2, 3)] 0) (run (Lower_bound [1, 5] 0)) = returns 0 \<and>
   on_built (bulk_insert [([5], 0, 3)] 0) (run (Lower_bound [7] 0)) = returns 0 \<and>
   on_built (bulk_insert [([5], 0, 3)] 0) (run End) = returns 3"
  by code_simp

text \<open>
  C4, as the code behaves. Let the tree be bulk-built from ascending keys of one length, and
  let \<open>q\<close> be a query key.

  \<^item> If exactly one stored key shares the first \<open>d\<close> bytes of \<open>q\<close>, for some \<open>d\<close> up to the length
    of \<open>q\<close>, the descent reaches the leaf of that key: \<open>lower_bound\<close> returns the begin of its
    range and \<open>upper_bound\<close> the end of its range, on whichever side of the key \<open>q\<close> lies.

  \<^item> If at least two stored keys share the first \<open>d\<close> bytes of \<open>q\<close>, none of them has the byte of
    \<open>q\<close> at position \<open>d\<close>, and the first stored key above \<open>q\<close> is one of them, the descent stops
    at their inner node, and both bounds return the begin of the range of that first stored
    key above \<open>q\<close>.
\<close>

theorem bounds_of_key_not_stored:
  fixes entries :: "(BinaryComparable \<times> Iterator \<times> Iterator) list"
  assumes sorted: "sorted_wrt (<) (map fst entries)"
    and len: "list_all (\<lambda>(k, r). length k = L) entries"
  shows "(sharing entries d q = [(kj, lj, uj)] \<and> d \<le> length q \<longrightarrow>
            on_built (bulk_insert entries 0) (run (Lower_bound q 0)) = returns lj \<and>
            on_built (bulk_insert entries 0) (run (Upper_bound q 0)) = returns uj) \<and>
         (2 \<le> length (sharing entries d q) \<and> d < length q \<and>
          list_all (\<lambda>(k, r). k ! d \<noteq> q ! d) (sharing entries d q) \<and>
          filter (\<lambda>(k, r). q < k) entries = (km, lm, um) # rest \<and> take d km = take d q \<longrightarrow>
            on_built (bulk_insert entries 0) (run (Lower_bound q 0)) = returns lm \<and>
            on_built (bulk_insert entries 0) (run (Upper_bound q 0)) = returns lm)"
proof (intro conjI impI; elim conjE)
  from sorted have distinct: "distinct (map fst entries)"
    by (simp add: strict_sorted_iff)
  have len': "length k = L" if "(k, r) \<in> set entries" for k r
    using len that by (auto simp: list_all_iff)
  have run: "run (Lower_bound q 0) = (\<lambda>t. Node_lower_bound t q 0)"
    "run (Upper_bound q 0) = (\<lambda>t. Node_upper_bound t q 0)"
    by (simp_all add: fun_eq_iff)
  {
    assume one: "sharing entries d q = [(kj, lj, uj)]" and d: "d \<le> length q"
    have "on_built (bulk_insert entries 0) (\<lambda>t. Node_lower_bound t q 0) = returns lj \<and>
          on_built (bulk_insert entries 0) (\<lambda>t. Node_upper_bound t q 0) = returns uj"
      by (rule bulk_insert_leaf_at [OF distinct len' _ one [unfolded sharing_def] _ d]) simp_all
    then show "on_built (bulk_insert entries 0) (run (Lower_bound q 0)) = returns lj"
      and "on_built (bulk_insert entries 0) (run (Upper_bound q 0)) = returns uj"
      unfolding run by simp_all
  }
  {
    assume many: "2 \<le> length (sharing entries d q)" and d: "d < length q"
      and nochild: "list_all (\<lambda>(k, r). k ! d \<noteq> q ! d) (sharing entries d q)"
      and first: "filter (\<lambda>(k, r). q < k) entries = (km, lm, um) # rest"
      and km: "take d km = take d q"
    have many': "2 \<le> length entries"
      by (rule order_trans [OF many [unfolded sharing_def] length_filter_le])
    have depth: "d < L"
    proof -
      from many obtain e1 e2 tail where s: "sharing entries d q = e1 # e2 # tail"
        by (cases "sharing entries d q"; cases "tl (sharing entries d q)") auto
      obtain k1 r1 k2 r2 where e: "e1 = (k1, r1)" "e2 = (k2, r2)"
        by (cases e1; cases e2) auto
      have "distinct (map fst (sharing entries d q))"
        unfolding sharing_def by (rule distinct_map_filter [OF distinct])
      with s e have ne: "k1 \<noteq> k2" by auto
      have "e1 \<in> set (sharing entries d q)" "e2 \<in> set (sharing entries d q)"
        unfolding s by simp_all
      with e have m: "(k1, r1) \<in> set entries" "(k2, r2) \<in> set entries"
        and t: "take d k1 = take d q" "take d k2 = take d q"
        by (simp_all add: sharing_def)
      show ?thesis
      proof (rule ccontr)
        assume "\<not> d < L"
        with len' [OF m(1)] len' [OF m(2)] t have "k1 = k2" by simp
        with ne show False by simp
      qed
    qed
    have "filter (\<lambda>(k, r). q ! d < k ! d) (sharing entries d q) =
          filter (\<lambda>(k, r). q < k) (sharing entries d q)"
    proof (rule filter_cong [OF refl])
      fix x assume x: "x \<in> set (sharing entries d q)"
      obtain k r where xk: "x = (k, r)" by (cases x)
      with x have "(k, r) \<in> set entries" "take d k = take d q"
        by (simp_all add: sharing_def)
      moreover from x xk nochild have "k ! d \<noteq> q ! d" by (auto simp: list_all_iff)
      ultimately have "(q < k) = (q ! d < k ! d)"
        using len' depth d by (intro lex_less_byte) simp_all
      with xk show "(case x of (k, r) \<Rightarrow> q ! d < k ! d) = (case x of (k, r) \<Rightarrow> q < k)"
        by simp
    qed
    also have "\<dots> = filter (\<lambda>(k, r). take d k = take d q) (filter (\<lambda>(k, r). q < k) entries)"
      unfolding sharing_def filter_filter by (rule filter_cong) auto
    also have "\<dots> = (km, lm, um) # filter (\<lambda>(k, r). take d k = take d q) rest"
      unfolding first using km by simp
    finally have nxt: "filter (\<lambda>(k, r). q ! d < k ! d)
        (filter (\<lambda>(k, r). take d k = take d q) entries) =
        (km, lm, um) # filter (\<lambda>(k, r). take d k = take d q) rest"
      unfolding sharing_def .
    have "on_built (bulk_insert entries 0) (\<lambda>t. Node_lower_bound t q 0) = returns lm \<and>
          on_built (bulk_insert entries 0) (\<lambda>t. Node_upper_bound t q 0) = returns lm"
    proof (rule bulk_insert_next_at [OF sorted len' _ _ d many [unfolded sharing_def] _ nxt])
      fix k r assume "(k, r) \<in> set entries" "take d k = take d q"
      then have "(k, r) \<in> set (sharing entries d q)"
        by (simp add: sharing_def)
      with nochild show "k ! d \<noteq> q ! d" by (auto simp: list_all_iff)
    qed simp_all
    then show "on_built (bulk_insert entries 0) (run (Lower_bound q 0)) = returns lm"
      and "on_built (bulk_insert entries 0) (run (Upper_bound q 0)) = returns lm"
      unfolding run by simp_all
  }
qed

theorem bounds_of_key_not_stored_witness:
  "sorted_wrt (<) (map fst three_keys) \<and>
   list_all (\<lambda>(k, r). length k = 2) three_keys \<and>
   sharing three_keys 1 [2, 7] = [([2, 0], 3, 5)] \<and>
   on_built (bulk_insert three_keys 0) (run (Lower_bound [2, 7] 0)) = returns 3 \<and>
   on_built (bulk_insert three_keys 0) (run (Upper_bound [2, 7] 0)) = returns 5 \<and>
   2 \<le> length (sharing three_keys 1 [1, 1]) \<and>
   list_all (\<lambda>(k, r). k ! 1 \<noteq> [1, 1] ! 1) (sharing three_keys 1 [1, 1]) \<and>
   filter (\<lambda>(k, r). [1, 1] < k) three_keys = [([1, 2], 2, 3), ([2, 0], 3, 5)] \<and>
   on_built (bulk_insert three_keys 0) (run (Lower_bound [1, 1] 0)) = returns 2 \<and>
   on_built (bulk_insert three_keys 0) (run (Upper_bound [1, 1] 0)) = returns 2"
proof -
  have sorted: "sorted_wrt (<) (map fst three_keys)"
    by code_simp
  have len: "list_all (\<lambda>(k, r). length k = 2) three_keys"
    by code_simp
  have one: "sharing three_keys 1 [2, 7] = [([2, 0], 3, 5)]"
    by code_simp
  have many: "2 \<le> length (sharing three_keys 1 [1, 1])"
    by code_simp
  have nochild: "list_all (\<lambda>(k, r). k ! 1 \<noteq> [1, 1] ! 1) (sharing three_keys 1 [1, 1])"
    by code_simp
  have first: "filter (\<lambda>(k, r). [1, 1] < k) three_keys = [([1, 2], 2, 3), ([2, 0], 3, 5)]"
    by code_simp
  have leaf: "on_built (bulk_insert three_keys 0) (run (Lower_bound [2, 7] 0)) = returns 3 \<and>
      on_built (bulk_insert three_keys 0) (run (Upper_bound [2, 7] 0)) = returns 5"
    by (rule bounds_of_key_not_stored
          [of three_keys 2 1 "[2, 7]" "[2, 0]" 3 5, OF sorted len, THEN conjunct1, THEN mp])
       (rule conjI [OF one], simp)
  have inner: "on_built (bulk_insert three_keys 0) (run (Lower_bound [1, 1] 0)) = returns 2 \<and>
      on_built (bulk_insert three_keys 0) (run (Upper_bound [1, 1] 0)) = returns 2"
    by (rule bounds_of_key_not_stored
          [of three_keys 2 1 "[1, 1]" _ _ _ "[1, 2]" 2 3 "[([2, 0], 3, 5)]",
           OF sorted len, THEN conjunct2, THEN mp])
       (intro conjI many nochild first, simp_all)
  from sorted len one leaf many nochild first inner show ?thesis
    by (intro conjI) (erule conjunct1 conjunct2 | assumption)+
qed

text \<open>
  C5. For every node of a well-formed tree and every query, the result of \<open>lower_bound\<close> and
  \<open>upper_bound\<close> lies between \<open>begin()\<close> and \<open>end()\<close> of that node.

  On the \<open>Node48\<close> of 17 leaves, \<open>upper_bound\<close> of the largest partial key is position 17, and
  \<open>end()\<close> is position 16.
\<close>

theorem upper_bound_beyond_end:
  "on_built (Node48_ctor (leaves 17)) Node_begin = returns 0 \<and>
   on_built (Node48_ctor (leaves 17)) (\<lambda>n. Node_upper_bound n [16] 0) = returns 17 \<and>
   on_built (Node48_ctor (leaves 17)) Node_end = returns 16"
  by code_simp

text \<open>
  C6. In a \<open>Node4\<close> or \<open>Node16\<close> without a child under partial key 255, a query whose byte is 255
  never follows a slot without child and resolves through \<open>end()\<close> of the node.

  Both shapes compare the partial key of the slot with the query byte before they look at the
  child: on a \<open>Node4\<close> of 2 leaves and a \<open>Node16\<close> of 5 leaves the query byte 255 matches the
  filler of the first unused slot, and the delegated function is called on its null child.
\<close>

theorem sentinel_query_calls_null_child:
  "on_built (Node4_ctor (leaves 2)) (\<lambda>n. Node_lower_bound n [255] 0) = fails null_dereference \<and>
   on_built (Node4_ctor (leaves 2)) (\<lambda>n. Node_upper_bound n [255] 0) = fails null_dereference \<and>
   on_built (Node16_ctor (leaves 5)) (\<lambda>n. Node_lower_bound n [255] 0) = fails null_dereference \<and>
   on_built (Node16_ctor (leaves 5)) (\<lambda>n. Node_upper_bound n [255] 0) = fails null_dereference"
  by code_simp

text \<open>
  C7. \<open>begin()\<close> and \<open>end()\<close> on an inner node without children fail with the labelled
  invariant error.

  Only \<^verbatim>\<open>Node4::end\<close> and \<^verbatim>\<open>Node48::end\<close> throw. \<^verbatim>\<open>Node4::begin\<close> and \<^verbatim>\<open>Node16::begin\<close> call the
  null child of slot 0, \<^verbatim>\<open>Node16::end\<close> reads \<^verbatim>\<open>_children[-1]\<close>, and \<^verbatim>\<open>Node48::begin\<close>,
  \<^verbatim>\<open>Node256::begin\<close> and \<^verbatim>\<open>Node256::end\<close> never return.
\<close>

theorem empty_node_begin_end:
  "on_built (Node4_ctor []) Node_begin = fails null_dereference \<and>
   on_built (Node4_ctor []) Node_end = fails logic_error \<and>
   on_built (Node16_ctor []) Node_begin = fails null_dereference \<and>
   on_built (Node16_ctor []) Node_end = fails out_of_bounds \<and>
   on_built (Node48_ctor []) Node_begin = never_returns \<and>
   on_built (Node48_ctor []) Node_end = fails logic_error \<and>
   on_built (Node256_ctor []) Node_begin = never_returns \<and>
   on_built (Node256_ctor []) Node_end = never_returns"
proof -
  have "on_built (Node4_ctor []) Node_begin = fails null_dereference"
    and "on_built (Node4_ctor []) Node_end = fails logic_error"
    and "on_built (Node16_ctor []) Node_begin = fails null_dereference"
    and "on_built (Node16_ctor []) Node_end = fails out_of_bounds"
    and "on_built (Node48_ctor []) Node_end = fails logic_error"
    by code_simp+
  moreover have "on_built (Node48_ctor []) Node_begin = never_returns"
    by (simp add: Node48_ctor_Nil on_built_def Node48_begin_scan_empty)
  moreover have "on_built (Node256_ctor []) Node_begin = never_returns"
    by (simp add: Node256_ctor_Nil on_built_def Node256_begin_scan_empty)
  moreover have "on_built (Node256_ctor []) Node_end = never_returns"
    by (simp add: Node256_ctor_Nil on_built_def Node256_end_scan_empty)
  ultimately show ?thesis by simp
qed

text \<open>
  C8. For every node shape, constructing the node from any permutation of the same pairs with
  distinct partial keys yields a node whose \<open>lower_bound\<close>, \<open>upper_bound\<close>, \<open>begin\<close> and \<open>end\<close>
  return identical results for every query: whatever the constructor and the method do on one
  order of the pairs (return a position, fail, not return), they do on every other order.
\<close>

theorem construction_ignores_order:
  assumes "mset ys = mset xs" and "distinct (map fst xs)"
  shows "on_built (construct s ys) (run q) = on_built (construct s xs) (run q)"
proof (cases s)
  case Shape4
  then show ?thesis
    by (simp add: Node4_ctor_def sort_key_fst_permutation [OF assms])
next
  case Shape16
  then show ?thesis
    by (simp add: Node16_ctor_def sort_key_fst_permutation [OF assms])
next
  case Shape48
  then show ?thesis
    by (simp add: Node48_ctor_permutation [OF assms])
next
  case Shape256
  then show ?thesis
    by (simp add: Node256_ctor_permutation [OF assms])
qed

theorem construction_ignores_order_witness:
  "mset [(2, Leaf 2 3), (0, Leaf 0 1), (1, Leaf 1 2)] = mset (leaves 3) \<and>
   distinct (map fst (leaves 3)) \<and>
   on_built (construct Shape48 [(2, Leaf 2 3), (0, Leaf 0 1), (1, Leaf 1 2)])
       (run (Lower_bound [1] 0)) =
     on_built (construct Shape48 (leaves 3)) (run (Lower_bound [1] 0)) \<and>
   on_built (construct Shape48 (leaves 3)) (run (Lower_bound [1] 0)) = returns 1"
proof -
  have h1: "mset [(2, Leaf 2 3), (0, Leaf 0 1), (1, Leaf 1 2)] = mset (leaves 3)"
    by code_simp
  have h2: "distinct (map fst (leaves 3))"
    by code_simp
  have "on_built (construct Shape48 (leaves 3)) (run (Lower_bound [1] 0)) = returns 1"
    by code_simp
  with h1 h2 construction_ignores_order [OF h1 h2, of Shape48 "Lower_bound [1] 0"]
  show ?thesis by simp
qed

text \<open>
  C9. \<^verbatim>\<open>Node256::end\<close> terminates for every node state, and on a node without children it
  reaches the labelled invariant error.

  The condition \<open>i >= 0\<close> on the \<^verbatim>\<open>uint8_t\<close> counter always holds. On a \<open>Node256\<close> without children
  the scan does not return, from whatever index it starts, and neither does \<open>end()\<close>.
\<close>

theorem Node256_end_never_returns_without_children:
  "Node256_ctor [] = returns (Node256 (replicate 256 None)) \<and>
   Node256_end_scan (replicate 256 None) i = never_returns \<and>
   Node_end (Node256 (replicate 256 None)) = never_returns"
  by (simp add: Node256_ctor_Nil Node256_end_scan_empty)

text \<open>
  C10. The searches of \<open>Node16\<close> read \<^verbatim>\<open>_partial_keys\<close> and \<^verbatim>\<open>_children\<close> only at indices below 16.

  On a full \<open>Node16\<close> with the partial keys 0 to 15, \<^verbatim>\<open>std::lower_bound\<close> returns the end of
  \<^verbatim>\<open>_partial_keys\<close> for the query byte 16 and for the filler 255; \<^verbatim>\<open>_delegate_to_child\<close> reads
  \<^verbatim>\<open>_partial_keys[16]\<close> and \<^verbatim>\<open>end()\<close> reads \<^verbatim>\<open>_children[16]\<close>.
\<close>

theorem full_Node16_reads_index_16:
  "on_built (Node16_ctor (leaves 16)) (\<lambda>n. Node_lower_bound n [16] 0) = fails out_of_bounds \<and>
   on_built (Node16_ctor (leaves 16)) (\<lambda>n. Node_upper_bound n [16] 0) = fails out_of_bounds \<and>
   on_built (Node16_ctor (leaves 16)) Node_end = fails out_of_bounds"
  by code_simp

end
